theory Spec2Isabelle
  imports Complex_Main "HOL-Library.Word" "HOL-Library.Multiset"
begin

section \<open>C strings\<close>

text \<open>
  A \<^verbatim>\<open>const char*\<close> is modelled by the list of the bytes that can be read through it.
  The byte after the end of the list reads as the terminator: the library functions below
  stop at a terminator or at their length bound, whichever comes first, every stored string
  carries its terminator, and a caller's array holds \<open>length\<close> bytes or a terminator
  before that. The theorems about a caller's array say where they need \<open>n \<le> length str\<close>.
\<close>

abbreviation NUL :: char where
  "NUL \<equiv> CHR 0x00"

fun peek :: "string \<Rightarrow> char" where
  "peek [] = NUL"
| "peek (c # cs) = c"

text \<open>
  \<^verbatim>\<open>strncpy(dest, src, n)\<close> of the C library: the \<open>n\<close> bytes it writes to \<open>dest\<close>.
  It copies up to the terminator of \<open>src\<close> and fills the rest of the \<open>n\<close> bytes with
  terminators.
\<close>

fun strncpy :: "string \<Rightarrow> nat \<Rightarrow> string" where
  "strncpy src 0 = []"
| "strncpy src (Suc n) =
     (if peek src = NUL then replicate (Suc n) NUL else peek src # strncpy (tl src) n)"

text \<open>
  \<^verbatim>\<open>strncmp(a, b, n)\<close> of the C library: it compares at most \<open>n\<close> bytes and stops after
  a terminator; the result is the difference of the first two bytes that differ, read as
  unsigned char, and 0 when there are none.
\<close>

fun strncmp :: "string \<Rightarrow> string \<Rightarrow> nat \<Rightarrow> int" where
  "strncmp a b 0 = 0"
| "strncmp a b (Suc n) =
     (if peek a \<noteq> peek b then int (of_char (peek a)) - int (of_char (peek b))
      else if peek a = NUL then 0
      else strncmp (tl a) (tl b) n)"

text \<open>
  \<^verbatim>\<open>std::string(const char*)\<close> reads up to the terminator; \<^verbatim>\<open>c_str()\<close> gives the bytes
  of a \<^verbatim>\<open>std::string\<close> followed by a terminator.
\<close>

definition std_string :: "string \<Rightarrow> string" where
  "std_string p = takeWhile (\<lambda>c. c \<noteq> NUL) p"

definition c_str :: "string \<Rightarrow> string" where
  "c_str s = s @ [NUL]"

text \<open>
  \<^verbatim>\<open>strequal\<close> of basic_database.hpp: walks \<open>prefix\<close> up to its terminator against
  \<open>other_str\<close>, then compares \<open>length\<close> bytes of \<open>str\<close> with what follows in \<open>other_str\<close>.
\<close>

fun strequal :: "string \<Rightarrow> string \<Rightarrow> nat \<Rightarrow> string \<Rightarrow> bool" where
  "strequal [] str len other_str = (strncmp str other_str len = 0)"
| "strequal (c # prefix) str len other_str =
     (if c = NUL then strncmp str other_str len = 0
      else if c \<noteq> peek other_str then False
      else strequal prefix str len (tl other_str))"

section \<open>Results and failures\<close>

datatype insert_status = collision | new_string | old_string

text \<open>
  The ways a call can fail to return: the two assertions of \<^verbatim>\<open>node_list\<close>
  (\<^verbatim>\<open>"hash not inserted"\<close> in \<^verbatim>\<open>find_node\<close>, \<^verbatim>\<open>"element can't be there already"\<close> in
  \<^verbatim>\<open>rehash\<close>), the remainder by a bucket count of zero, and the exception of the default
  generation error handler, which carries the generator's name. The assertions are taken as
  compiled in; without them the same calls read through a null pointer or take another
  hash's node, and the remainder by zero is undefined in either build.
\<close>

datatype error =
    Hash_Not_Inserted
  | Element_Already_There
  | Division_By_Zero
  | Generation_Error string

section \<open>Nodes and bucket chains\<close>

text \<open>
  A node is its header (\<open>length\<close>, \<open>hash\<close>) and the bytes that follow it in the same
  allocation; \<open>next\<close> is the position in the chain: a \<^verbatim>\<open>node_list\<close> is the list of its
  nodes from \<^verbatim>\<open>head_\<close> on, in link order.
\<close>

record 'h node =
  node_length :: nat
  node_hash :: 'h
  node_str :: string

text \<open>The two constructors of \<^verbatim>\<open>node\<close>; \<^verbatim>\<open>get_str\<close> is the field \<open>node_str\<close>.\<close>

definition node_ctor :: "string \<Rightarrow> nat \<Rightarrow> 'h \<Rightarrow> 'h node" where
  "node_ctor str len h =
     \<lparr>node_length = len, node_hash = h, node_str = strncpy str len @ [NUL]\<rparr>"

definition node_ctor_prefix :: "string \<Rightarrow> nat \<Rightarrow> string \<Rightarrow> nat \<Rightarrow> 'h \<Rightarrow> 'h node" where
  "node_ctor_prefix prefix length_prefix str length_string h =
     \<lparr>node_length = length_prefix + length_string, node_hash = h,
      node_str = strncpy prefix length_prefix @ strncpy str length_string @ [NUL]\<rparr>"

text \<open>
  \<^verbatim>\<open>insert_pos_t\<close>: either the node with the hash (\<open>exists\<close>), or the place where it
  belongs: the nodes up to \<open>prev\<close> and the nodes from \<open>next\<close> on.
\<close>

datatype 'h insert_pos_t =
    Pos_Exists "'h node"
  | Pos_Between "'h node list" "'h node list"

fun insert_pos :: "'a::len word node list \<Rightarrow> 'a word \<Rightarrow> 'a word insert_pos_t" where
  "insert_pos [] hash = Pos_Between [] []"
| "insert_pos (cur # rest) hash =
     (if node_hash cur < hash then
        (case insert_pos rest hash of
           Pos_Exists c \<Rightarrow> Pos_Exists c
         | Pos_Between before after \<Rightarrow> Pos_Between (cur # before) after)
      else if node_hash cur = hash then Pos_Exists cur
      else Pos_Between [] (cur # rest))"

fun find_node :: "'a::len word node list \<Rightarrow> 'a word \<Rightarrow> error + 'a word node" where
  "find_node [] h = Inl Hash_Not_Inserted"
| "find_node (cur # rest) h =
     (if node_hash cur < h then find_node rest h
      else if node_hash cur = h then Inr cur
      else Inl Hash_Not_Inserted)"

definition node_list_insert ::
  "'a::len word node list \<Rightarrow> 'a word \<Rightarrow> string \<Rightarrow> nat
    \<Rightarrow> insert_status \<times> 'a word node list" where
  "node_list_insert head hash str len =
     (case insert_pos head hash of
        Pos_Exists cur \<Rightarrow>
          (if strncmp str (node_str cur) len = 0 then old_string else collision, head)
      | Pos_Between before after \<Rightarrow>
          (new_string, before @ node_ctor str len hash # after))"

definition node_list_insert_prefix ::
  "'a::len word node list \<Rightarrow> 'a word node list \<Rightarrow> 'a word \<Rightarrow> 'a word \<Rightarrow> string \<Rightarrow> nat
    \<Rightarrow> error + insert_status \<times> 'a word node list" where
  "node_list_insert_prefix head prefix_bucket prefix hash str len =
     (case find_node prefix_bucket prefix of
        Inl e \<Rightarrow> Inl e
      | Inr prefix_node \<Rightarrow>
          (case insert_pos head hash of
             Pos_Exists cur \<Rightarrow>
               Inr (if strequal (node_str prefix_node) str len (node_str cur)
                    then old_string else collision, head)
           | Pos_Between before after \<Rightarrow>
               Inr (new_string,
                    before @ node_ctor_prefix (node_str prefix_node) (node_length prefix_node)
                               str len hash # after)))"

text \<open>
  \<^verbatim>\<open>node_list::rehash(buckets, size)\<close>: every node of this chain is linked into its
  chain of the new array. The result is the new array; this chain is empty afterwards.
\<close>

fun node_list_rehash ::
  "'a::len word node list \<Rightarrow> 'a word node list list \<Rightarrow> nat
    \<Rightarrow> error + 'a word node list list" where
  "node_list_rehash [] buckets sz = Inr buckets"
| "node_list_rehash (cur # rest) buckets sz =
     (case insert_pos (buckets ! (unat (node_hash cur) mod sz)) (node_hash cur) of
        Pos_Exists c \<Rightarrow> Inl Element_Already_There
      | Pos_Between before after \<Rightarrow>
          node_list_rehash rest
            (buckets[unat (node_hash cur) mod sz := before @ cur # after]) sz)"

definition node_list_lookup :: "'a::len word node list \<Rightarrow> 'a word \<Rightarrow> error + string" where
  "node_list_lookup head h =
     (case find_node head h of Inl e \<Rightarrow> Inl e | Inr n \<Rightarrow> Inr (node_str n))"

section \<open>The hash table\<close>

text \<open>
  \<^verbatim>\<open>map_database\<close>. The \<^verbatim>\<open>std::size_t\<close> members count allocated nodes and buckets and
  are natural numbers. \<open>max_load_factor\<close> is a \<^verbatim>\<open>double\<close> in the source; here it is a
  real number and the product with the bucket count is taken exactly. The two agree where
  the product is a \<^verbatim>\<open>double\<close>, as it is for the load factors 1 and 1/16 of the examples;
  elsewhere the source floors the rounded product (10 times 0.7 rounds to 7). What is proved
  below for every load factor holds for whatever value the threshold has, and what is
  evaluated is evaluated for these two load factors. The cast of the floor to
  \<^verbatim>\<open>std::size_t\<close> is \<open>nat\<close>, which gives 0 for a negative product, where the cast is
  undefined in C++.
\<close>

record 'h map_database =
  buckets :: "'h node list list"
  no_items :: nat
  no_buckets :: nat
  max_load_factor :: real
  next_resize :: nat

definition map_database_ctor :: "nat \<Rightarrow> real \<Rightarrow> 'h map_database" where
  "map_database_ctor sz mlf =
     \<lparr>buckets = replicate sz [], no_items = 0, no_buckets = sz,
      max_load_factor = mlf, next_resize = nat \<lfloor>real sz * mlf\<rfloor>\<rparr>"

text \<open>The loop of \<^verbatim>\<open>map_database::rehash\<close> over the old buckets.\<close>

fun rehash_lists ::
  "'a::len word node list list \<Rightarrow> 'a word node list list \<Rightarrow> nat
    \<Rightarrow> error + 'a word node list list" where
  "rehash_lists [] new_buckets new_size = Inr new_buckets"
| "rehash_lists (list # rest) new_buckets new_size =
     (case node_list_rehash list new_buckets new_size of
        Inl e \<Rightarrow> Inl e
      | Inr new_buckets' \<Rightarrow> rehash_lists rest new_buckets' new_size)"

definition map_database_rehash ::
  "'a::len word map_database \<Rightarrow> error + 'a word map_database" where
  "map_database_rehash db =
     (let new_size = 2 * no_buckets db in
      case rehash_lists (take (no_buckets db) (buckets db)) (replicate new_size []) new_size of
        Inl e \<Rightarrow> Inl e
      | Inr new_buckets \<Rightarrow>
          Inr (db\<lparr>buckets := new_buckets, no_buckets := new_size,
                  next_resize := nat \<lfloor>real new_size * max_load_factor db\<rfloor>\<rparr>))"

text \<open>
  The first statement of \<^verbatim>\<open>map_database::insert\<close> and of
  \<^verbatim>\<open>map_database::insert_prefix\<close>: \<^verbatim>\<open>if (no_items_ + 1 >= next_resize_) rehash();\<close>
\<close>

definition grow_if_due :: "'a::len word map_database \<Rightarrow> error + 'a word map_database" where
  "grow_if_due db =
     (if no_items db + 1 \<ge> next_resize db then map_database_rehash db else Inr db)"

definition map_database_insert ::
  "'a::len word map_database \<Rightarrow> 'a word \<Rightarrow> string \<Rightarrow> nat
    \<Rightarrow> error + insert_status \<times> 'a word map_database" where
  "map_database_insert db hash str len =
     (case grow_if_due db of
        Inl e \<Rightarrow> Inl e
      | Inr db1 \<Rightarrow>
          if no_buckets db1 = 0 then Inl Division_By_Zero
          else
            (case node_list_insert (buckets db1 ! (unat hash mod no_buckets db1))
                    hash str len of
               (status, list) \<Rightarrow>
                 Inr (status,
                      db1\<lparr>buckets := (buckets db1)[unat hash mod no_buckets db1 := list],
                          no_items := (if status = new_string then no_items db1 + 1
                                       else no_items db1)\<rparr>)))"

definition map_database_insert_prefix ::
  "'a::len word map_database \<Rightarrow> 'a word \<Rightarrow> 'a word \<Rightarrow> string \<Rightarrow> nat
    \<Rightarrow> error + insert_status \<times> 'a word map_database" where
  "map_database_insert_prefix db hash prefix str len =
     (case grow_if_due db of
        Inl e \<Rightarrow> Inl e
      | Inr db1 \<Rightarrow>
          if no_buckets db1 = 0 then Inl Division_By_Zero
          else
            (case node_list_insert_prefix (buckets db1 ! (unat hash mod no_buckets db1))
                    (buckets db1 ! (unat prefix mod no_buckets db1)) prefix hash str len of
               Inl e \<Rightarrow> Inl e
             | Inr (status, list) \<Rightarrow>
                 Inr (status,
                      db1\<lparr>buckets := (buckets db1)[unat hash mod no_buckets db1 := list],
                          no_items := (if status = new_string then no_items db1 + 1
                                       else no_items db1)\<rparr>)))"

definition map_database_lookup :: "'a::len word map_database \<Rightarrow> 'a word \<Rightarrow> error + string" where
  "map_database_lookup db hash =
     (if no_buckets db = 0 then Inl Division_By_Zero
      else node_list_lookup (buckets db ! (unat hash mod no_buckets db)) hash)"

text \<open>
  The default \<^verbatim>\<open>basic_database::insert_prefix\<close>, over the virtual \<^verbatim>\<open>lookup\<close> and
  \<^verbatim>\<open>insert\<close> of the database it is called on.
\<close>

definition basic_database_insert_prefix ::
  "('db \<Rightarrow> 'h \<Rightarrow> error + string) \<Rightarrow> ('db \<Rightarrow> 'h \<Rightarrow> string \<Rightarrow> nat \<Rightarrow> error + insert_status \<times> 'db)
    \<Rightarrow> 'db \<Rightarrow> 'h \<Rightarrow> 'h \<Rightarrow> string \<Rightarrow> nat \<Rightarrow> error + insert_status \<times> 'db" where
  "basic_database_insert_prefix lookup_fn insert_fn db hash prefix str len =
     (case lookup_fn db prefix of
        Inl e \<Rightarrow> Inl e
      | Inr p \<Rightarrow>
          (let prefix_str = std_string p in
           insert_fn db hash (c_str (prefix_str @ std_string str)) (length prefix_str + len)))"

section \<open>Generators\<close>

text \<open>
  \<^verbatim>\<open>default_generation_error_handler\<close> of error.hpp: it throws
  \<^verbatim>\<open>generation_error(generator_name)\<close> from \<^verbatim>\<open>no_tries_generation\<close> tries on and
  returns \<^verbatim>\<open>true\<close> before.
\<close>

definition no_tries_generation :: nat where
  "no_tries_generation = 8"

definition default_generation_error_handler :: "nat \<Rightarrow> string \<Rightarrow> 'h \<Rightarrow> string \<Rightarrow> error + bool" where
  "default_generation_error_handler no generator_name hash str =
     (if no \<ge> no_tries_generation then Inl (Generation_Error generator_name) else Inr True)"

text \<open>
  \<^verbatim>\<open>detail::handle_generation_error\<close> of generator.hpp calls the installed handler with
  the hash code and the string of the identifier. The identifier type \<^verbatim>\<open>STRID_T\<close> is
  declared in string_id.hpp; its two accessors are parameters here.
\<close>

definition handle_generation_error ::
  "(nat \<Rightarrow> string \<Rightarrow> 'h \<Rightarrow> string \<Rightarrow> error + bool) \<Rightarrow> ('r \<Rightarrow> 'h) \<Rightarrow> ('r \<Rightarrow> string)
    \<Rightarrow> nat \<Rightarrow> string \<Rightarrow> 'r \<Rightarrow> error + bool" where
  "handle_generation_error handler hash_code string_of counter name result =
     handler counter name (hash_code result) (string_of result)"

text \<open>
  \<^verbatim>\<open>detail::try_generate\<close>. \<open>make_id\<close> stands for the expression
  \<^verbatim>\<open>STRID_T(prefix, generator(), status)\<close>: it advances the generator, inserts the
  candidate into the database and yields the identifier and the status of the insertion;
  \<open>'s\<close> is the state it works on (the generator's and the database's). \<open>handle\<close> is
  \<^verbatim>\<open>handle_generation_error\<close>. The loop has no bound of its own, so it is a partial
  function: \<open>None\<close> is a loop that never ends. A thrown exception leaves the loop with the
  state as it is.
\<close>

partial_function (option) try_generate_loop ::
  "(nat \<Rightarrow> string \<Rightarrow> 'r \<Rightarrow> error + bool) \<Rightarrow> string \<Rightarrow> ('s \<Rightarrow> ('r \<times> insert_status) \<times> 's)
    \<Rightarrow> nat \<Rightarrow> 'r \<Rightarrow> insert_status \<Rightarrow> 's \<Rightarrow> ((error + 'r) \<times> 's) option" where
  "try_generate_loop handle name make_id counter result status s =
     (if status \<noteq> new_string then
        (case handle counter name result of
           Inl e \<Rightarrow> Some (Inl e, s)
         | Inr again \<Rightarrow>
             if again then
               (case make_id s of
                  ((result', status'), s') \<Rightarrow>
                    try_generate_loop handle name make_id (counter + 1) result' status' s')
             else Some (Inr result, s))
      else Some (Inr result, s))"

definition try_generate ::
  "(nat \<Rightarrow> string \<Rightarrow> 'r \<Rightarrow> error + bool) \<Rightarrow> string \<Rightarrow> ('s \<Rightarrow> ('r \<times> insert_status) \<times> 's)
    \<Rightarrow> 's \<Rightarrow> ((error + 'r) \<times> 's) option" where
  "try_generate handle name make_id s =
     (case make_id s of
        ((result, status), s') \<Rightarrow> try_generate_loop handle name make_id 1 result status s')"

section \<open>The representation invariant and the stored entries\<close>

text \<open>
  A chain of bucket \<open>i\<close> of \<open>nb\<close> is in order when its hashes increase strictly, every node
  belongs to the bucket, and every node's bytes are \<open>length\<close> bytes and a terminator.
\<close>

definition chain_ok :: "nat \<Rightarrow> nat \<Rightarrow> 'a::len word node list \<Rightarrow> bool" where
  "chain_ok nb i l \<longleftrightarrow>
     sorted_wrt (<) (map node_hash l) \<and>
     list_all (\<lambda>n. unat (node_hash n) mod nb = i \<and> length (node_str n) = Suc (node_length n)) l"

fun chains_ok :: "nat \<Rightarrow> nat \<Rightarrow> 'a::len word node list list \<Rightarrow> bool" where
  "chains_ok nb i [] = True"
| "chains_ok nb i (l # ls) = (chain_ok nb i l \<and> chains_ok nb (Suc i) ls)"

text \<open>
  A database is well formed when it has at least one bucket, \<open>no_buckets\<close> is the size of
  the bucket array, and every chain is in order. A database constructed with at least one
  bucket is well formed and stays so through every call that returns; one constructed with
  no bucket fails every call on the remainder by zero.
\<close>

definition well_formed :: "'a::len word map_database \<Rightarrow> bool" where
  "well_formed db \<longleftrightarrow>
     0 < no_buckets db \<and> length (buckets db) = no_buckets db \<and>
     chains_ok (no_buckets db) 0 (buckets db)"

text \<open>The stored entries, as a multiset of nodes, and the hashes that have an entry.\<close>

definition entries :: "'h map_database \<Rightarrow> 'h node multiset" where
  "entries db = mset (concat (buckets db))"

definition stored :: "'h map_database \<Rightarrow> 'h \<Rightarrow> bool" where
  "stored db h \<longleftrightarrow> h \<in> node_hash ` set (concat (buckets db))"

section \<open>Call sequences\<close>

text \<open>
  A caller that makes the given \<^verbatim>\<open>insert\<close> calls one after the other and keeps the
  statuses, and a caller that makes \<^verbatim>\<open>insert\<close> and \<^verbatim>\<open>insert_prefix\<close> calls in any
  order: both stop at the first call that fails. The databases that \<open>run_calls\<close> returns from
  \<open>map_database_ctor b f\<close> are the states a database constructed with \<open>b\<close> buckets and
  maximum load factor \<open>f\<close> can be in after a completed call.
\<close>

fun insert_seq ::
  "'a::len word map_database \<Rightarrow> ('a word \<times> string \<times> nat) list
    \<Rightarrow> error + insert_status list \<times> 'a word map_database" where
  "insert_seq db [] = Inr ([], db)"
| "insert_seq db ((hash, str, len) # calls) =
     (case map_database_insert db hash str len of
        Inl e \<Rightarrow> Inl e
      | Inr (status, db') \<Rightarrow>
          (case insert_seq db' calls of
             Inl e \<Rightarrow> Inl e
           | Inr (statuses, db'') \<Rightarrow> Inr (status # statuses, db'')))"

datatype 'h call = Insert 'h string nat | Insert_Prefix 'h 'h string nat

fun run_calls ::
  "'a::len word map_database \<Rightarrow> 'a word call list \<Rightarrow> error + 'a word map_database" where
  "run_calls db [] = Inr db"
| "run_calls db (Insert hash str len # calls) =
     (case map_database_insert db hash str len of
        Inl e \<Rightarrow> Inl e
      | Inr (status, db') \<Rightarrow> run_calls db' calls)"
| "run_calls db (Insert_Prefix hash prefix str len # calls) =
     (case map_database_insert_prefix db hash prefix str len of
        Inl e \<Rightarrow> Inl e
      | Inr (status, db') \<Rightarrow> run_calls db' calls)"

text \<open>A caller that makes the given \<^verbatim>\<open>insert\<close> calls and then looks a hash up.\<close>

definition lookup_after ::
  "'a::len word map_database \<Rightarrow> ('a word \<times> string \<times> nat) list \<Rightarrow> 'a word \<Rightarrow> error + string" where
  "lookup_after db calls h =
     (case insert_seq db calls of
        Inl e \<Rightarrow> Inl e
      | Inr (statuses, db') \<Rightarrow> map_database_lookup db' h)"

section \<open>Repeated doubling\<close>

text \<open>
  The states of a database constructed with four buckets and maximum load factor 1: the
  threshold is the bucket count, the item count is below it, and the bucket count is 4
  doubled some number of times.
\<close>

definition doubling_state :: "'a::len word map_database \<Rightarrow> bool" where
  "doubling_state db \<longleftrightarrow>
     well_formed db \<and> max_load_factor db = 1 \<and> next_resize db = no_buckets db \<and>
     no_items db < no_buckets db \<and> (\<exists>k. no_buckets db = 4 * 2 ^ k)"

section \<open>Example databases\<close>

text \<open>
  A node as \<^verbatim>\<open>insert\<close> creates it for a string without a terminator inside, and a
  database as three insertions of distinct hashes leave it when it was constructed with four
  buckets and maximum load factor 1: the next insertion is due to grow it.
\<close>

definition node_of :: "'h \<Rightarrow> string \<Rightarrow> 'h node" where
  "node_of h x = \<lparr>node_length = length x, node_hash = h, node_str = x @ [NUL]\<rparr>"

definition example_db :: "32 word map_database" where
  "example_db =
     \<lparr>buckets = [[], [node_of 1 ''a''], [node_of 2 ''x''], [node_of 3 ''ab'']],
      no_items = 3, no_buckets = 4, max_load_factor = 1, next_resize = 4\<rparr>"

definition example_db_grown :: "32 word map_database" where
  "example_db_grown =
     \<lparr>buckets = [[], [node_of 1 ''a''], [node_of 2 ''x''], [node_of 3 ''ab''], [], [], [], []],
      no_items = 3, no_buckets = 8, max_load_factor = 1, next_resize = 8\<rparr>"

text \<open>
  The example database after \<^verbatim>\<open>insert(9, "cd", 2)\<close>, which doubles the array, and after
  the rejected \<^verbatim>\<open>insert(3, "b", 1)\<close> and \<^verbatim>\<open>insert_prefix(10, 1, "z", 1)\<close> that follow.
\<close>

definition example_db_four :: "32 word map_database" where
  "example_db_four =
     \<lparr>buckets = [[], [node_of 1 ''a'', node_of 9 ''cd''], [node_of 2 ''x''], [node_of 3 ''ab''],
                 [], [], [], []],
      no_items = 4, no_buckets = 8, max_load_factor = 1, next_resize = 8\<rparr>"

definition example_db_five :: "32 word map_database" where
  "example_db_five =
     \<lparr>buckets = [[], [node_of 1 ''a'', node_of 9 ''cd''], [node_of 2 ''x'', node_of 10 ''az''],
                 [node_of 3 ''ab''], [], [], [], []],
      no_items = 5, no_buckets = 8, max_load_factor = 1, next_resize = 8\<rparr>"

text \<open>A thousand calls with the hashes 0 to 999.\<close>

definition thousand_calls :: "(32 word \<times> string \<times> nat) list" where
  "thousand_calls = map (\<lambda>i. (word_of_nat i, ''id'', 2)) [0..<1000]"

text \<open>
  Two entries in four buckets, the first one's string a parameter, and the same database
  without the first entry.
\<close>

definition prefix_db :: "string \<Rightarrow> 32 word map_database" where
  "prefix_db x =
     \<lparr>buckets = [[], [node_of 1 x], [node_of 2 ''ab''], []],
      no_items = 2, no_buckets = 4, max_load_factor = 1, next_resize = 4\<rparr>"

definition no_prefix_db :: "32 word map_database" where
  "no_prefix_db =
     \<lparr>buckets = [[], [], [node_of 2 ''ab''], []],
      no_items = 1, no_buckets = 4, max_load_factor = 1, next_resize = 4\<rparr>"

text \<open>
  The database that one insertion leaves when it was constructed with four buckets and
  maximum load factor 1/16.
\<close>

definition sparse_db :: "32 word map_database" where
  "sparse_db =
     \<lparr>buckets = [[], [node_of 1 ''a''], [], [], [], [], [], []],
      no_items = 1, no_buckets = 8, max_load_factor = 1 / 16, next_resize = 0\<rparr>"

text \<open>
  A generator whose every identifier is in the database already (it counts its calls), and a
  handler that never lets the generator try again.
\<close>

definition always_old :: "nat \<Rightarrow> (nat \<times> insert_status) \<times> nat" where
  "always_old t = ((t, old_string), Suc t)"

definition never_again :: "nat \<Rightarrow> string \<Rightarrow> nat \<Rightarrow> error + bool" where
  "never_again counter name result = Inr False"

text \<open>
  The database that \<^verbatim>\<open>insert(1, "abcdef", 6)\<close> and \<^verbatim>\<open>insert(2, "a", 1)\<close> leave when it
  was constructed with four buckets and maximum load factor 1.
\<close>

definition long_db :: "32 word map_database" where
  "long_db =
     \<lparr>buckets = [[], [node_of 1 ''abcdef''], [node_of 2 ''a''], []],
      no_items = 2, no_buckets = 4, max_load_factor = 1, next_resize = 4\<rparr>"

text \<open>
  The database that \<^verbatim>\<open>insert(1, "a", 3)\<close> leaves when it was constructed with four
  buckets and maximum load factor 1 (and \<^verbatim>\<open>insert\<close> of the three bytes a, 0, b as well):
  the node holds the byte a and three terminators under length 3. The two databases that
  \<^verbatim>\<open>insert_prefix(2, 1, "b", 1)\<close> and \<^verbatim>\<open>insert(2, "ab", 2)\<close> make of it.
\<close>

definition padded_db :: "32 word map_database" where
  "padded_db =
     \<lparr>buckets = [[], [\<lparr>node_length = 3, node_hash = 1,
                          node_str = [CHR ''a'', NUL, NUL, NUL]\<rparr>], [], []],
      no_items = 1, no_buckets = 4, max_load_factor = 1, next_resize = 4\<rparr>"

definition padded_override_db :: "32 word map_database" where
  "padded_override_db =
     \<lparr>buckets = [[], [\<lparr>node_length = 3, node_hash = 1,
                          node_str = [CHR ''a'', NUL, NUL, NUL]\<rparr>],
                 [\<lparr>node_length = 4, node_hash = 2,
                   node_str = [CHR ''a'', NUL, NUL, CHR ''b'', NUL]\<rparr>], []],
      no_items = 2, no_buckets = 4, max_load_factor = 1, next_resize = 4\<rparr>"

definition padded_insert_db :: "32 word map_database" where
  "padded_insert_db =
     \<lparr>buckets = [[], [\<lparr>node_length = 3, node_hash = 1,
                          node_str = [CHR ''a'', NUL, NUL, NUL]\<rparr>],
                 [\<lparr>node_length = 2, node_hash = 2,
                   node_str = [CHR ''a'', CHR ''b'', NUL]\<rparr>], []],
      no_items = 2, no_buckets = 4, max_load_factor = 1, next_resize = 4\<rparr>"

text \<open>A thousand calls with the hashes 0 to 999 and the three bytes a, 0, b.\<close>

definition cut_calls :: "(32 word \<times> string \<times> nat) list" where
  "cut_calls = map (\<lambda>i. (word_of_nat i, [CHR ''a'', NUL, CHR ''b''], 3)) [0..<1000]"

section \<open>C string lemmas\<close>

lemma strncpy_length: "length (strncpy src n) = n"
  by (induction src n rule: strncpy.induct) auto

lemma strncpy_plain: "n \<le> length s \<Longrightarrow> NUL \<notin> set (take n s) \<Longrightarrow> strncpy s n = take n s"
proof (induction s n rule: strncpy.induct)
  case (1 src)
  then show ?case by simp
next
  case (2 src n)
  then show ?case by (cases src) auto
qed

lemma strncpy_append: "NUL \<notin> set x \<Longrightarrow> strncpy (x @ s) (length x + n) = x @ strncpy s n"
  by (induction x) auto

lemma strncpy_terminated: "NUL \<notin> set x \<Longrightarrow> strncpy (x @ NUL # r) (length x) = x"
  using strncpy_plain [of "length x" "x @ NUL # r"] by simp

lemma strncpy_std_string: "strncpy (std_string s @ NUL # r) n = strncpy s n"
proof (induction s n rule: strncpy.induct)
  case (1 src)
  then show ?case by simp
next
  case (2 src n)
  then show ?case by (cases src) (auto simp: std_string_def)
qed

lemma strncmp_strncpy: "strncmp s (strncpy s n @ NUL # r) n = 0"
proof (induction s n rule: strncpy.induct)
  case (1 src)
  then show ?case by simp
next
  case (2 src n)
  then show ?case by (cases src) auto
qed

lemma std_string_strncpy: "std_string (strncpy s n @ [NUL]) = std_string (take n s)"
proof (induction s n rule: strncpy.induct)
  case (1 src)
  then show ?case by (simp add: std_string_def)
next
  case (2 src n)
  then show ?case by (cases src) (auto simp: std_string_def)
qed

section \<open>Chains\<close>

lemma chains_ok_nth:
  "chains_ok nb i bs \<longleftrightarrow> (\<forall>k<length bs. chain_ok nb (i + k) (bs ! k))"
proof (induction bs arbitrary: i)
  case Nil
  then show ?case by simp
next
  case (Cons l ls)
  show ?case
    by (auto simp: Cons.IH less_Suc_eq_0_disj)
qed

lemma insert_pos_between:
  "insert_pos l h = Pos_Between b a \<Longrightarrow>
     l = b @ a \<and> (\<forall>n\<in>set b. node_hash n < h) \<and> (a \<noteq> [] \<longrightarrow> h < node_hash (hd a))"
  by (induction l arbitrary: b) (auto split: if_splits insert_pos_t.splits)

lemma insert_pos_exists:
  "insert_pos l h = Pos_Exists c \<Longrightarrow> c \<in> set l \<and> node_hash c = h"
  by (induction l) (auto split: if_splits insert_pos_t.splits)

lemma insert_pos_present:
  "sorted_wrt (<) (map node_hash l) \<Longrightarrow> c \<in> set l \<Longrightarrow> insert_pos l (node_hash c) = Pos_Exists c"
  by (induction l) (auto split: if_splits insert_pos_t.splits)

lemma insert_pos_absent:
  assumes "h \<notin> node_hash ` set l"
  obtains b a where "insert_pos l h = Pos_Between b a"
  using assms insert_pos_exists [of l h] by (cases "insert_pos l h") auto

lemma find_node_present:
  "sorted_wrt (<) (map node_hash l) \<Longrightarrow> c \<in> set l \<Longrightarrow> find_node l (node_hash c) = Inr c"
  by (induction l) auto

lemma find_node_absent:
  "h \<notin> node_hash ` set l \<Longrightarrow> find_node l h = Inl Hash_Not_Inserted"
  by (induction l) auto

lemma find_node_Inr:
  "find_node l h = Inr c \<Longrightarrow> c \<in> set l \<and> node_hash c = h"
  by (induction l) (auto split: if_splits)

lemma sorted_insert_between:
  fixes a b :: "'h::linorder node list"
  assumes "sorted_wrt (<) (map node_hash (b @ a))"
    and "\<forall>n\<in>set b. node_hash n < node_hash x"
    and "a \<noteq> [] \<longrightarrow> node_hash x < node_hash (hd a)"
  shows "sorted_wrt (<) (map node_hash (b @ x # a))"
proof (cases a)
  case Nil
  with assms show ?thesis by (auto simp: sorted_wrt_append)
next
  case (Cons c cs)
  with assms show ?thesis
    by (fastforce simp: sorted_wrt_append)
qed

lemma chain_ok_insert:
  assumes "chain_ok nb i l" "insert_pos l (node_hash x) = Pos_Between b a"
    and "unat (node_hash x) mod nb = i" "length (node_str x) = Suc (node_length x)"
  shows "chain_ok nb i (b @ x # a)"
proof -
  from insert_pos_between [OF assms(2)]
  have l: "l = b @ a" and lt: "\<forall>n\<in>set b. node_hash n < node_hash x"
    and gt: "a \<noteq> [] \<longrightarrow> node_hash x < node_hash (hd a)" by auto
  from assms(1) l have "sorted_wrt (<) (map node_hash (b @ a))" by (simp add: chain_ok_def)
  from sorted_insert_between [OF this lt gt] assms(1,3,4) l show ?thesis
    by (simp add: chain_ok_def)
qed


lemma chains_ok_lower:
  "chains_ok nb i bs \<Longrightarrow> n \<in> set (concat bs) \<Longrightarrow> i \<le> unat (node_hash n) mod nb"
proof (induction bs arbitrary: i)
  case Nil
  then show ?case by simp
next
  case (Cons l ls)
  then show ?case
    by (fastforce simp: chain_ok_def list_all_iff)
qed

lemma chains_ok_distinct:
  "chains_ok nb i bs \<Longrightarrow> distinct (map node_hash (concat bs))"
proof (induction bs arbitrary: i)
  case Nil
  then show ?case by simp
next
  case (Cons l ls)
  have "distinct (map node_hash l)"
    using Cons.prems by (simp add: chain_ok_def strict_sorted_iff)
  moreover have "distinct (map node_hash (concat ls))"
    using Cons.prems by (intro Cons.IH [of "Suc i"]) simp
  moreover have "node_hash x \<noteq> node_hash y" if "x \<in> set l" "y \<in> set (concat ls)" for x y
  proof -
    have "unat (node_hash x) mod nb = i"
      using Cons.prems that(1) by (simp add: chain_ok_def list_all_iff)
    moreover have "Suc i \<le> unat (node_hash y) mod nb"
      using Cons.prems that(2) chains_ok_lower [of nb "Suc i" ls y] by simp
    ultimately show ?thesis by auto
  qed
  ultimately show ?case by auto
qed

lemma mset_concat_update:
  "i < length bs \<Longrightarrow> bs ! i = b @ a \<Longrightarrow>
     mset (concat (bs[i := b @ x # a])) = add_mset x (mset (concat bs))"
proof (induction bs arbitrary: i)
  case Nil
  then show ?case by simp
next
  case (Cons l ls)
  then show ?case by (cases i) auto
qed

lemma chains_ok_update:
  assumes "chains_ok nb 0 bs" "i < length bs" "chain_ok nb i l"
  shows "chains_ok nb 0 (bs[i := l])"
  using assms by (auto simp: chains_ok_nth nth_list_update)

lemma node_list_rehash_ok:
  assumes "length bs = sz" "0 < sz" "chains_ok sz 0 bs"
    and "distinct (map node_hash (l @ concat bs))"
    and "\<forall>n\<in>set l. length (node_str n) = Suc (node_length n)"
  shows "\<exists>bs'. node_list_rehash l bs sz = Inr bs' \<and> length bs' = sz \<and> chains_ok sz 0 bs' \<and>
           mset (concat bs') = mset l + mset (concat bs)"
  using assms
proof (induction l arbitrary: bs)
  case Nil
  then show ?case by simp
next
  case (Cons cur rest)
  define i where "i = unat (node_hash cur) mod sz"
  have i: "i < length bs" using Cons.prems(1,2) by (simp add: i_def)
  have ok_i: "chain_ok sz i (bs ! i)"
    using Cons.prems(3) i by (simp add: chains_ok_nth)
  have "set (bs ! i) \<subseteq> set (concat bs)"
    using i by (auto intro: nth_mem)
  then have "node_hash cur \<notin> node_hash ` set (bs ! i)"
    using Cons.prems(4) by auto
  then obtain b a where pos: "insert_pos (bs ! i) (node_hash cur) = Pos_Between b a"
    by (rule insert_pos_absent)
  define bs1 where "bs1 = bs[i := b @ cur # a]"
  have split: "bs ! i = b @ a" using insert_pos_between [OF pos] by simp
  have "chain_ok sz i (b @ cur # a)"
    using chain_ok_insert [OF ok_i pos] Cons.prems(5) by (simp add: i_def)
  then have ok1: "chains_ok sz 0 bs1"
    unfolding bs1_def by (rule chains_ok_update [OF Cons.prems(3) i])
  have m1: "mset (concat bs1) = add_mset cur (mset (concat bs))"
    unfolding bs1_def by (rule mset_concat_update [OF i split])
  have "mset (map node_hash (rest @ concat bs1)) = mset (map node_hash ((cur # rest) @ concat bs))"
    by (simp add: m1)
  then have d1: "distinct (map node_hash (rest @ concat bs1))"
    using Cons.prems(4) mset_eq_imp_distinct_iff by blast
  have len1: "length bs1 = sz" using Cons.prems(1) by (simp add: bs1_def)
  from Cons.IH [OF len1 Cons.prems(2) ok1 d1] Cons.prems(5)
  obtain bs' where "node_list_rehash rest bs1 sz = Inr bs'" "length bs' = sz"
    "chains_ok sz 0 bs'" "mset (concat bs') = mset rest + mset (concat bs1)"
    by auto
  then show ?case
    using pos by (simp add: i_def [symmetric] bs1_def [symmetric] m1)
qed

lemma rehash_lists_ok:
  assumes "length bs = sz" "0 < sz" "chains_ok sz 0 bs"
    and "distinct (map node_hash (concat old @ concat bs))"
    and "\<forall>n\<in>set (concat old). length (node_str n) = Suc (node_length n)"
  shows "\<exists>bs'. rehash_lists old bs sz = Inr bs' \<and> length bs' = sz \<and> chains_ok sz 0 bs' \<and>
           mset (concat bs') = mset (concat old) + mset (concat bs)"
  using assms
proof (induction old arbitrary: bs)
  case Nil
  then show ?case by simp
next
  case (Cons l old)
  have "distinct (map node_hash (l @ concat bs))"
    using Cons.prems(4) by (simp add: image_Un Int_Un_distrib)
  from node_list_rehash_ok [OF Cons.prems(1-3) this] Cons.prems(5)
  obtain bs1 where r1: "node_list_rehash l bs sz = Inr bs1" and len1: "length bs1 = sz"
    and ok1: "chains_ok sz 0 bs1" and m1: "mset (concat bs1) = mset l + mset (concat bs)"
    by auto
  have "mset (map node_hash (concat old @ concat bs1)) =
        mset (map node_hash (concat (l # old) @ concat bs))"
    by (simp add: m1)
  then have d1: "distinct (map node_hash (concat old @ concat bs1))"
    using Cons.prems(4) mset_eq_imp_distinct_iff by blast
  from Cons.IH [OF len1 Cons.prems(2) ok1 d1] Cons.prems(5)
  obtain bs' where "rehash_lists old bs1 sz = Inr bs'" "length bs' = sz"
    "chains_ok sz 0 bs'" "mset (concat bs') = mset (concat old) + mset (concat bs1)"
    by auto
  then show ?case
    using r1 by (simp add: m1)
qed

lemma chains_ok_replicate: "chains_ok nb i (replicate k [])"
  by (induction k arbitrary: i) (auto simp: chain_ok_def)

lemma chains_ok_node_str:
  "chains_ok nb i bs \<Longrightarrow> n \<in> set (concat bs) \<Longrightarrow> length (node_str n) = Suc (node_length n)"
  by (induction bs arbitrary: i) (auto simp: chain_ok_def list_all_iff)

lemma map_database_rehash_ok:
  assumes "well_formed db"
  shows "\<exists>db'. map_database_rehash db = Inr db' \<and> well_formed db' \<and> entries db' = entries db \<and>
           no_buckets db' = 2 * no_buckets db \<and> no_items db' = no_items db \<and>
           max_load_factor db' = max_load_factor db \<and>
           next_resize db' = nat \<lfloor>real (2 * no_buckets db) * max_load_factor db\<rfloor>"
proof -
  let ?sz = "2 * no_buckets db"
  from assms have nb: "0 < no_buckets db" and len: "length (buckets db) = no_buckets db"
    and ok: "chains_ok (no_buckets db) 0 (buckets db)"
    by (simp_all add: well_formed_def)
  have d: "distinct (map node_hash (concat (buckets db) @ concat (replicate ?sz [])))"
    using chains_ok_distinct [OF ok] by simp
  have s: "\<forall>n\<in>set (concat (buckets db)). length (node_str n) = Suc (node_length n)"
    using chains_ok_node_str [OF ok] by blast
  from rehash_lists_ok [of "replicate ?sz []" ?sz "buckets db", OF _ _ chains_ok_replicate d s] nb
  obtain bs' where "rehash_lists (buckets db) (replicate ?sz []) ?sz = Inr bs'"
    "length bs' = ?sz" "chains_ok ?sz 0 bs'" "mset (concat bs') = mset (concat (buckets db))"
    by auto
  then show ?thesis
    using nb len by (simp add: map_database_rehash_def well_formed_def entries_def)
qed


lemma stored_entries: "stored db h \<longleftrightarrow> (\<exists>n. n \<in># entries db \<and> node_hash n = h)"
  by (auto simp: stored_def entries_def)

lemma well_formed_chain:
  "well_formed db \<Longrightarrow> k < no_buckets db \<Longrightarrow> chain_ok (no_buckets db) k (buckets db ! k)"
  by (simp add: well_formed_def chains_ok_nth)

lemma bucket_entries:
  "k < length (buckets db) \<Longrightarrow> n \<in> set (buckets db ! k) \<Longrightarrow> n \<in># entries db"
  by (auto simp: entries_def intro: nth_mem)

lemma entries_bucket:
  assumes "well_formed db" "n \<in># entries db"
  shows "n \<in> set (buckets db ! (unat (node_hash n) mod no_buckets db))"
proof -
  from assms(2) obtain l where "l \<in> set (buckets db)" and nl: "n \<in> set l"
    by (auto simp: entries_def)
  then obtain k where k: "k < length (buckets db)" and n: "n \<in> set (buckets db ! k)"
    by (auto simp: in_set_conv_nth [of l])
  with assms(1) have "chain_ok (no_buckets db) k (buckets db ! k)"
    by (simp add: well_formed_def chains_ok_nth)
  with n have "unat (node_hash n) mod no_buckets db = k"
    by (simp add: chain_ok_def list_all_iff)
  with n show ?thesis by simp
qed

lemma bucket_index: "well_formed db \<Longrightarrow> unat (h :: 'a::len word) mod no_buckets db < no_buckets db"
  by (simp add: well_formed_def)

lemma lookup_stored:
  assumes "well_formed db" "n \<in># entries db"
  shows "map_database_lookup db (node_hash n) = Inr (node_str n)"
proof -
  let ?k = "unat (node_hash n) mod no_buckets db"
  have "chain_ok (no_buckets db) ?k (buckets db ! ?k)"
    using assms(1) by (intro well_formed_chain bucket_index)
  then have "sorted_wrt (<) (map node_hash (buckets db ! ?k))"
    by (simp add: chain_ok_def)
  from find_node_present [OF this entries_bucket [OF assms]] assms(1)
  show ?thesis
    by (simp add: map_database_lookup_def node_list_lookup_def well_formed_def)
qed

lemma lookup_absent:
  assumes "well_formed db" "\<not> stored db h"
  shows "map_database_lookup db h = Inl Hash_Not_Inserted"
proof -
  let ?k = "unat h mod no_buckets db"
  have "?k < length (buckets db)" using assms(1) by (simp add: well_formed_def)
  then have "h \<notin> node_hash ` set (buckets db ! ?k)"
    using assms(2) bucket_entries [of ?k db] by (auto simp: stored_entries)
  from find_node_absent [OF this] assms(1) show ?thesis
    by (simp add: map_database_lookup_def node_list_lookup_def well_formed_def)
qed

lemma entries_unique:
  assumes "well_formed db" "n \<in># entries db" "m \<in># entries db" "node_hash n = node_hash m"
  shows "n = m"
proof -
  have "distinct (map node_hash (concat (buckets db)))"
    using assms(1) by (auto simp: well_formed_def intro: chains_ok_distinct)
  then have "inj_on node_hash (set (concat (buckets db)))"
    by (simp add: distinct_map)
  with assms(2-4) show ?thesis
    by (auto simp: entries_def dest: inj_onD)
qed

lemma lookup_entries_cong:
  assumes "well_formed db" "well_formed db'" "entries db' = entries db"
  shows "map_database_lookup db' h = map_database_lookup db h"
proof (cases "stored db h")
  case True
  then obtain n where n: "n \<in># entries db" "node_hash n = h"
    by (auto simp: stored_entries)
  with assms lookup_stored [of db n] lookup_stored [of db' n] show ?thesis by simp
next
  case False
  then have "\<not> stored db' h" using assms(3) by (simp add: stored_entries)
  with False assms show ?thesis by (simp add: lookup_absent)
qed

lemma grow_if_due_ok:
  assumes "well_formed db"
  shows "\<exists>db1. grow_if_due db = Inr db1 \<and> well_formed db1 \<and> entries db1 = entries db \<and>
           no_items db1 = no_items db \<and> max_load_factor db1 = max_load_factor db \<and>
           no_buckets db1 =
             (if next_resize db \<le> no_items db + 1 then 2 * no_buckets db else no_buckets db) \<and>
           next_resize db1 =
             (if next_resize db \<le> no_items db + 1
              then nat \<lfloor>real (2 * no_buckets db) * max_load_factor db\<rfloor> else next_resize db)"
  using map_database_rehash_ok [OF assms] assms by (auto simp: grow_if_due_def)

lemma node_list_insert_new:
  assumes "chain_ok nb i l" "h \<notin> node_hash ` set l" "unat h mod nb = i"
  shows "\<exists>l'. node_list_insert l h s n = (new_string, l') \<and> chain_ok nb i l' \<and>
           (\<exists>b a. l = b @ a \<and> l' = b @ node_ctor s n h # a)"
proof -
  from assms(2) obtain b a where pos: "insert_pos l h = Pos_Between b a"
    by (rule insert_pos_absent)
  have "chain_ok nb i (b @ node_ctor s n h # a)"
    by (rule chain_ok_insert [OF assms(1)])
      (use pos assms(3) in \<open>simp_all add: node_ctor_def strncpy_length\<close>)
  moreover have "l = b @ a" using insert_pos_between [OF pos] by simp
  ultimately show ?thesis
    using pos by (auto simp: node_list_insert_def)
qed

lemma node_list_insert_old:
  assumes "chain_ok nb i l" "c \<in> set l"
  shows "node_list_insert l (node_hash c) s n =
           (if strncmp s (node_str c) n = 0 then old_string else collision, l)"
  using assms insert_pos_present [of l c] by (simp add: node_list_insert_def chain_ok_def)


lemma grow_if_due_props:
  assumes "well_formed db" "grow_if_due db = Inr db1"
  shows "well_formed db1" "entries db1 = entries db" "no_items db1 = no_items db"
    "max_load_factor db1 = max_load_factor db"
    "no_buckets db1 =
       (if next_resize db \<le> no_items db + 1 then 2 * no_buckets db else no_buckets db)"
    "next_resize db1 =
       (if next_resize db \<le> no_items db + 1
        then nat \<lfloor>real (2 * no_buckets db) * max_load_factor db\<rfloor> else next_resize db)"
  using grow_if_due_ok [OF assms(1)] assms(2) by auto

lemma grow_if_due_stored:
  "well_formed db \<Longrightarrow> grow_if_due db = Inr db1 \<Longrightarrow> stored db1 h = stored db h"
  by (simp add: stored_entries grow_if_due_props(2))

lemma put_chain:
  assumes "well_formed db1" "i < no_buckets db1" "chain_ok (no_buckets db1) i l'"
    and "buckets db1 ! i = b @ a" "l' = b @ x # a"
  shows "well_formed (db1\<lparr>buckets := (buckets db1)[i := l'], no_items := k\<rparr>)"
    and "entries (db1\<lparr>buckets := (buckets db1)[i := l'], no_items := k\<rparr>) =
           add_mset x (entries db1)"
  using assms
  by (simp_all add: well_formed_def entries_def chains_ok_update mset_concat_update)

lemma map_database_insert_new:
  assumes "well_formed db" "\<not> stored db h" "grow_if_due db = Inr db1"
  shows "\<exists>db'. map_database_insert db h s n = Inr (new_string, db') \<and> well_formed db' \<and>
           entries db' = add_mset (node_ctor s n h) (entries db) \<and>
           no_items db' = Suc (no_items db) \<and> no_buckets db' = no_buckets db1 \<and>
           max_load_factor db' = max_load_factor db1 \<and> next_resize db' = next_resize db1"
proof -
  let ?i = "unat h mod no_buckets db1"
  note g = grow_if_due_props [OF assms(1,3)]
  have i: "?i < no_buckets db1" using g(1) by (rule bucket_index)
  then have len: "?i < length (buckets db1)" using g(1) by (simp add: well_formed_def)
  have "\<not> stored db1 h" using assms by (simp add: grow_if_due_stored)
  then have "h \<notin> node_hash ` set (buckets db1 ! ?i)"
    using bucket_entries [OF len] by (auto simp: stored_entries)
  from node_list_insert_new [OF well_formed_chain [OF g(1) i] this refl, of s n]
  obtain l' b a where ins: "node_list_insert (buckets db1 ! ?i) h s n = (new_string, l')"
    and ok: "chain_ok (no_buckets db1) ?i l'" and split: "buckets db1 ! ?i = b @ a"
    and l': "l' = b @ node_ctor s n h # a"
    by blast
  from put_chain [OF g(1) i ok split l', of "no_items db1 + 1"] ins i g(2,3) assms(3)
  show ?thesis
    by (simp add: map_database_insert_def)
qed

lemma map_database_insert_old:
  assumes "well_formed db" "c \<in># entries db" "grow_if_due db = Inr db1"
  shows "map_database_insert db (node_hash c) s n =
           Inr (if strncmp s (node_str c) n = 0 then old_string else collision, db1)"
proof -
  let ?i = "unat (node_hash c) mod no_buckets db1"
  note g = grow_if_due_props [OF assms(1,3)]
  have i: "?i < no_buckets db1" using g(1) by (rule bucket_index)
  have "c \<in> set (buckets db1 ! ?i)"
    using assms(2) g(1,2) by (intro entries_bucket) simp_all
  from node_list_insert_old [OF well_formed_chain [OF g(1) i] this, of s n] i assms(3)
  show ?thesis
    by (simp add: map_database_insert_def)
qed

lemma find_prefix_node:
  assumes "well_formed db1" "pn \<in># entries db1"
  shows "find_node (buckets db1 ! (unat (node_hash pn) mod no_buckets db1)) (node_hash pn) = Inr pn"
proof -
  let ?j = "unat (node_hash pn) mod no_buckets db1"
  have "chain_ok (no_buckets db1) ?j (buckets db1 ! ?j)"
    using assms(1) by (intro well_formed_chain bucket_index)
  then have "sorted_wrt (<) (map node_hash (buckets db1 ! ?j))"
    by (simp add: chain_ok_def)
  from find_node_present [OF this entries_bucket [OF assms]] show ?thesis .
qed

lemma map_database_insert_prefix_new:
  assumes "well_formed db" "\<not> stored db h" "pn \<in># entries db" "grow_if_due db = Inr db1"
  shows "\<exists>db'. map_database_insert_prefix db h (node_hash pn) s n = Inr (new_string, db') \<and>
           well_formed db' \<and>
           entries db' =
             add_mset (node_ctor_prefix (node_str pn) (node_length pn) s n h) (entries db) \<and>
           no_items db' = Suc (no_items db) \<and> no_buckets db' = no_buckets db1 \<and>
           max_load_factor db' = max_load_factor db1 \<and> next_resize db' = next_resize db1"
proof -
  let ?i = "unat h mod no_buckets db1"
  let ?x = "node_ctor_prefix (node_str pn) (node_length pn) s n h"
  note g = grow_if_due_props [OF assms(1,4)]
  have i: "?i < no_buckets db1" using g(1) by (rule bucket_index)
  then have len: "?i < length (buckets db1)" using g(1) by (simp add: well_formed_def)
  have pn: "pn \<in># entries db1" using assms(3) g(2) by simp
  have "\<not> stored db1 h" using assms by (simp add: grow_if_due_stored)
  then have "h \<notin> node_hash ` set (buckets db1 ! ?i)"
    using bucket_entries [OF len] by (auto simp: stored_entries)
  then obtain b a where pos: "insert_pos (buckets db1 ! ?i) h = Pos_Between b a"
    by (rule insert_pos_absent)
  have ok: "chain_ok (no_buckets db1) ?i (b @ ?x # a)"
    by (rule chain_ok_insert [OF well_formed_chain [OF g(1) i]])
      (use pos in \<open>simp_all add: node_ctor_prefix_def strncpy_length\<close>)
  have split: "buckets db1 ! ?i = b @ a" using insert_pos_between [OF pos] by simp
  from put_chain [OF g(1) i ok split refl, of "no_items db1 + 1"]
    pos i g(2,3) assms(4) find_prefix_node [OF g(1) pn]
  show ?thesis
    by (simp add: map_database_insert_prefix_def node_list_insert_prefix_def)
qed

lemma map_database_insert_prefix_old:
  assumes "well_formed db" "c \<in># entries db" "pn \<in># entries db" "grow_if_due db = Inr db1"
  shows "map_database_insert_prefix db (node_hash c) (node_hash pn) s n =
           Inr (if strequal (node_str pn) s n (node_str c) then old_string else collision, db1)"
proof -
  let ?i = "unat (node_hash c) mod no_buckets db1"
  note g = grow_if_due_props [OF assms(1,4)]
  have i: "?i < no_buckets db1" using g(1) by (rule bucket_index)
  have pn: "pn \<in># entries db1" using assms(3) g(2) by simp
  have c: "c \<in> set (buckets db1 ! ?i)"
    using assms(2) g(1,2) by (intro entries_bucket) simp_all
  have "sorted_wrt (<) (map node_hash (buckets db1 ! ?i))"
    using well_formed_chain [OF g(1) i] by (simp add: chain_ok_def)
  from insert_pos_present [OF this c] i assms(4) find_prefix_node [OF g(1) pn]
  show ?thesis
    by (simp add: map_database_insert_prefix_def node_list_insert_prefix_def)
qed

lemma map_database_insert_prefix_no_prefix:
  assumes "well_formed db" "\<not> stored db p"
  shows "map_database_insert_prefix db h p s n = Inl Hash_Not_Inserted"
proof -
  from grow_if_due_ok [OF assms(1)] obtain db1 where db1: "grow_if_due db = Inr db1" by blast
  let ?j = "unat p mod no_buckets db1"
  note g = grow_if_due_props [OF assms(1) db1]
  have j: "?j < no_buckets db1" using g(1) by (rule bucket_index)
  then have len: "?j < length (buckets db1)" using g(1) by (simp add: well_formed_def)
  have "\<not> stored db1 p" using assms db1 by (simp add: grow_if_due_stored)
  then have "p \<notin> node_hash ` set (buckets db1 ! ?j)"
    using bucket_entries [OF len] by (auto simp: stored_entries)
  from find_node_absent [OF this] db1 j show ?thesis
    by (simp add: map_database_insert_prefix_def node_list_insert_prefix_def)
qed

section \<open>The effect of a call\<close>

lemma map_database_insert_effect:
  assumes "well_formed db" "map_database_insert db h s n = Inr (st, db')"
  shows "well_formed db'"
    and "(st = new_string) = (\<not> stored db h)"
    and "entries db' = (if st = new_string then add_mset (node_ctor s n h) (entries db) else entries db)"
    and "no_items db' = (if st = new_string then Suc (no_items db) else no_items db)"
    and "max_load_factor db' = max_load_factor db"
    and "no_buckets db' =
       (if next_resize db \<le> no_items db + 1 then 2 * no_buckets db else no_buckets db)"
    and "next_resize db' =
       (if next_resize db \<le> no_items db + 1
        then nat \<lfloor>real (2 * no_buckets db) * max_load_factor db\<rfloor> else next_resize db)"
proof -
  from grow_if_due_ok [OF assms(1)] obtain db1 where db1: "grow_if_due db = Inr db1" by blast
  note g = grow_if_due_props [OF assms(1) db1]
  have "well_formed db' \<and> (st = new_string) = (\<not> stored db h) \<and>
    entries db' = (if st = new_string then add_mset (node_ctor s n h) (entries db) else entries db) \<and>
    no_items db' = (if st = new_string then Suc (no_items db) else no_items db) \<and>
    max_load_factor db' = max_load_factor db1 \<and> no_buckets db' = no_buckets db1 \<and>
    next_resize db' = next_resize db1"
  proof (cases "stored db h")
    case True
    then obtain c where c: "c \<in># entries db" "node_hash c = h" by (auto simp: stored_entries)
    from map_database_insert_old [OF assms(1) c(1) db1, of s n] assms(2) c(2) True g
    show ?thesis by (auto split: if_splits)
  next
    case False
    from map_database_insert_new [OF assms(1) False db1, of s n] assms(2) False
    show ?thesis by auto
  qed
  with g show "well_formed db'"
    and "(st = new_string) = (\<not> stored db h)"
    and "entries db' = (if st = new_string then add_mset (node_ctor s n h) (entries db) else entries db)"
    and "no_items db' = (if st = new_string then Suc (no_items db) else no_items db)"
    and "max_load_factor db' = max_load_factor db"
    and "no_buckets db' =
       (if next_resize db \<le> no_items db + 1 then 2 * no_buckets db else no_buckets db)"
    and "next_resize db' =
       (if next_resize db \<le> no_items db + 1
        then nat \<lfloor>real (2 * no_buckets db) * max_load_factor db\<rfloor> else next_resize db)"
    by simp_all
qed

lemma map_database_insert_prefix_effect:
  assumes "well_formed db" "map_database_insert_prefix db h p s n = Inr (st, db')"
  shows "well_formed db'"
    and "stored db p"
    and "(st = new_string) = (\<not> stored db h)"
    and "st = new_string \<longrightarrow> (\<exists>pn. pn \<in># entries db \<and> node_hash pn = p \<and>
           entries db' = add_mset (node_ctor_prefix (node_str pn) (node_length pn) s n h) (entries db))"
    and "st \<noteq> new_string \<longrightarrow> entries db' = entries db"
    and "no_items db' = (if st = new_string then Suc (no_items db) else no_items db)"
    and "max_load_factor db' = max_load_factor db"
    and "no_buckets db' =
       (if next_resize db \<le> no_items db + 1 then 2 * no_buckets db else no_buckets db)"
    and "next_resize db' =
       (if next_resize db \<le> no_items db + 1
        then nat \<lfloor>real (2 * no_buckets db) * max_load_factor db\<rfloor> else next_resize db)"
proof -
  from grow_if_due_ok [OF assms(1)] obtain db1 where db1: "grow_if_due db = Inr db1" by blast
  note g = grow_if_due_props [OF assms(1) db1]
  show p: "stored db p"
    using map_database_insert_prefix_no_prefix [OF assms(1), of p h s n] assms(2) by auto
  then obtain pn where pn: "pn \<in># entries db" "node_hash pn = p" by (auto simp: stored_entries)
  have "well_formed db' \<and> (st = new_string) = (\<not> stored db h) \<and>
    (st = new_string \<longrightarrow>
       entries db' = add_mset (node_ctor_prefix (node_str pn) (node_length pn) s n h) (entries db)) \<and>
    (st \<noteq> new_string \<longrightarrow> entries db' = entries db) \<and>
    no_items db' = (if st = new_string then Suc (no_items db) else no_items db) \<and>
    max_load_factor db' = max_load_factor db1 \<and> no_buckets db' = no_buckets db1 \<and>
    next_resize db' = next_resize db1"
  proof (cases "stored db h")
    case True
    then obtain c where c: "c \<in># entries db" "node_hash c = h" by (auto simp: stored_entries)
    from map_database_insert_prefix_old [OF assms(1) c(1) pn(1) db1, of s n] assms(2) c(2) pn(2) True g
    show ?thesis by (auto split: if_splits)
  next
    case False
    from map_database_insert_prefix_new [OF assms(1) False pn(1) db1, of s n] assms(2) False pn(2)
    show ?thesis by auto
  qed
  with g pn show "well_formed db'"
    and "(st = new_string) = (\<not> stored db h)"
    and "st = new_string \<longrightarrow> (\<exists>pn. pn \<in># entries db \<and> node_hash pn = p \<and>
           entries db' = add_mset (node_ctor_prefix (node_str pn) (node_length pn) s n h) (entries db))"
    and "st \<noteq> new_string \<longrightarrow> entries db' = entries db"
    and "no_items db' = (if st = new_string then Suc (no_items db) else no_items db)"
    and "max_load_factor db' = max_load_factor db"
    and "no_buckets db' =
       (if next_resize db \<le> no_items db + 1 then 2 * no_buckets db else no_buckets db)"
    and "next_resize db' =
       (if next_resize db \<le> no_items db + 1
        then nat \<lfloor>real (2 * no_buckets db) * max_load_factor db\<rfloor> else next_resize db)"
    by auto
qed

lemma well_formed_ctor: "0 < b \<Longrightarrow> well_formed (map_database_ctor b f)"
  by (simp add: well_formed_def map_database_ctor_def chains_ok_replicate)

lemma entries_ctor: "entries (map_database_ctor b f) = {#}"
  by (simp add: entries_def map_database_ctor_def)

lemma run_calls_invariant:
  assumes "run_calls db0 calls = Inr db" "P db0"
    and "\<And>d h s n st d'. P d \<Longrightarrow> map_database_insert d h s n = Inr (st, d') \<Longrightarrow> P d'"
    and "\<And>d h p s n st d'. P d \<Longrightarrow> map_database_insert_prefix d h p s n = Inr (st, d') \<Longrightarrow> P d'"
  shows "P db"
  using assms(1,2)
proof (induction calls arbitrary: db0)
  case Nil
  then show ?case by simp
next
  case (Cons c calls)
  show ?case
  proof (cases c)
    case (Insert h s n)
    with Cons.prems(1) obtain st d where
      1: "map_database_insert db0 h s n = Inr (st, d)" and 2: "run_calls d calls = Inr db"
      by (auto split: sum.splits prod.splits)
    from Cons.IH [OF 2 assms(3) [OF Cons.prems(2) 1]] show ?thesis .
  next
    case (Insert_Prefix h p s n)
    with Cons.prems(1) obtain st d where
      1: "map_database_insert_prefix db0 h p s n = Inr (st, d)" and 2: "run_calls d calls = Inr db"
      by (auto split: sum.splits prod.splits)
    from Cons.IH [OF 2 assms(4) [OF Cons.prems(2) 1]] show ?thesis .
  qed
qed

lemma run_calls_well_formed:
  assumes "run_calls (map_database_ctor b f) calls = Inr db" "0 < b"
  shows "well_formed db"
  using assms(1) well_formed_ctor [OF assms(2)]
  by (rule run_calls_invariant)
    (blast intro: map_database_insert_effect(1) map_database_insert_prefix_effect(1))+

lemmas example_defs =
  example_db_def node_of_def well_formed_def chain_ok_def stored_def entries_def

section \<open>Evaluation of the examples\<close>

lemma replicate_numeral: "replicate (numeral k) x = x # replicate (pred_numeral k) x"
  by (simp add: numeral_eq_Suc)

lemmas eval_defs = replicate_numeral
  map_database_insert_def map_database_insert_prefix_def map_database_lookup_def
  grow_if_due_def map_database_rehash_def node_list_insert_def node_list_insert_prefix_def
  node_list_lookup_def node_ctor_def node_ctor_prefix_def map_database_ctor_def

lemma example_insert_collision:
  "map_database_insert example_db 3 ''b'' 1 = Inr (collision, example_db_grown)"
  by (simp add: eval_defs example_db_def example_db_grown_def node_of_def)

lemma example_insert_prefix_old:
  "map_database_insert_prefix example_db 3 1 ''b'' 1 = Inr (old_string, example_db_grown)"
  by (simp add: eval_defs example_db_def example_db_grown_def node_of_def)

section \<open>Sequences of insertions\<close>

lemma insert_seq_fresh:
  assumes "well_formed db" "distinct (map fst calls)" "\<forall>h\<in>fst ` set calls. \<not> stored db h"
  shows "\<exists>db'. insert_seq db calls = Inr (replicate (length calls) new_string, db') \<and>
           well_formed db' \<and>
           entries db' = entries db + mset (map (\<lambda>(h, s, n). node_ctor s n h) calls) \<and>
           no_items db' = no_items db + length calls \<and>
           max_load_factor db' = max_load_factor db"
  using assms
proof (induction calls arbitrary: db)
  case Nil
  then show ?case by simp
next
  case (Cons call calls)
  obtain h s n where call: "call = (h, s, n)" by (cases call)
  have new: "\<not> stored db h" using Cons.prems(3) call by simp
  from grow_if_due_ok [OF Cons.prems(1)] obtain g where g: "grow_if_due db = Inr g" by blast
  from map_database_insert_new [OF Cons.prems(1) new g, of s n]
  obtain db1 where db1: "map_database_insert db h s n = Inr (new_string, db1)"
    and wf1: "well_formed db1"
    and e1: "entries db1 = add_mset (node_ctor s n h) (entries db)"
    and n1: "no_items db1 = Suc (no_items db)"
    and f1: "max_load_factor db1 = max_load_factor g"
    by blast
  have d: "distinct (map fst calls)" using Cons.prems(2) by simp
  have "\<not> stored db1 k" if "k \<in> fst ` set calls" for k
  proof -
    have "k \<noteq> h" using that Cons.prems(2) call by auto
    moreover have "\<not> stored db k" using that Cons.prems(3) by auto
    ultimately show ?thesis by (auto simp: stored_entries e1 node_ctor_def)
  qed
  then have "\<forall>k\<in>fst ` set calls. \<not> stored db1 k" by blast
  from Cons.IH [OF wf1 d this]
  obtain db' where "insert_seq db1 calls = Inr (replicate (length calls) new_string, db')"
    "well_formed db'"
    "entries db' = entries db1 + mset (map (\<lambda>(h, s, n). node_ctor s n h) calls)"
    "no_items db' = no_items db1 + length calls" "max_load_factor db' = max_load_factor db1"
    by blast
  then show ?case
    using db1 e1 n1 f1 grow_if_due_props(4) [OF Cons.prems(1) g] by (simp add: call)
qed

lemma insert_seq_lookup:
  assumes "well_formed db'"
    and "entries db' = entries db + mset (map (\<lambda>(h, s, n). node_ctor s n h) calls)"
    and "(h, s, n) \<in> set calls"
  shows "map_database_lookup db' h = Inr (strncpy s n @ [NUL])"
proof -
  have "node_ctor s n h \<in># entries db'"
    using assms(2,3) by (force simp: image_iff)
  from lookup_stored [OF assms(1) this] show ?thesis by (simp add: node_ctor_def)
qed

lemma doubling_state_insert:
  assumes "doubling_state db" "map_database_insert db h s n = Inr (st, db')"
  shows "doubling_state db'"
proof -
  from assms(1) have wf: "well_formed db" and f: "max_load_factor db = 1"
    and t: "next_resize db = no_buckets db" and lt: "no_items db < no_buckets db"
    by (simp_all add: doubling_state_def)
  from assms(1) obtain k where k: "no_buckets db = 4 * 2 ^ k"
    by (auto simp: doubling_state_def)
  note e = map_database_insert_effect [OF wf assms(2)]
  have "nat \<lfloor>real (2 * no_buckets db) * max_load_factor db\<rfloor> = 2 * no_buckets db"
    by (simp only: f mult_1_right floor_of_nat nat_int)
  then have t': "next_resize db' = no_buckets db'"
    using e(6,7) t by simp
  have lt': "no_items db' < no_buckets db'"
    using e(4,6) t lt by (auto split: if_splits)
  have "no_buckets db' = 4 * 2 ^ Suc k \<or> no_buckets db' = 4 * 2 ^ k"
    using e(6) k by (simp split: if_splits)
  then have "\<exists>j. no_buckets db' = 4 * 2 ^ j" by blast
  with e(1,5) f t' lt' show ?thesis
    by (simp add: doubling_state_def)
qed

lemma doubling_state_insert_seq:
  "doubling_state db \<Longrightarrow> insert_seq db calls = Inr (sts, db') \<Longrightarrow> doubling_state db'"
proof (induction calls arbitrary: db sts)
  case Nil
  then show ?case by simp
next
  case (Cons call calls)
  obtain h s n where call: "call = (h, s, n)" by (cases call)
  from Cons.prems(2) obtain st db1 sts1 where
    1: "map_database_insert db h s n = Inr (st, db1)" and 2: "insert_seq db1 calls = Inr (sts1, db')"
    by (auto simp: call split: sum.splits prod.splits)
  from Cons.IH [OF doubling_state_insert [OF Cons.prems(1) 1] 2] show ?case .
qed

lemma doubling_state_ctor: "doubling_state (map_database_ctor 4 1)"
proof -
  let ?db0 = "map_database_ctor 4 1 :: 'a word map_database"
  have wf: "well_formed ?db0" by (rule well_formed_ctor) simp
  have fields: "max_load_factor ?db0 = 1" "next_resize ?db0 = no_buckets ?db0"
    "no_items ?db0 < no_buckets ?db0" "no_buckets ?db0 = 4 * 2 ^ 0"
    by (simp_all add: map_database_ctor_def)
  from fields(4) have "\<exists>k. no_buckets ?db0 = 4 * 2 ^ k" ..
  with wf fields(1-3) show ?thesis
    unfolding doubling_state_def by blast
qed

lemma four_doublings_bound:
  assumes "(1000::nat) < 4 * 2 ^ k"
  shows "(1024::nat) \<le> 4 * 2 ^ k"
proof (rule ccontr)
  assume a: "\<not> ?thesis"
  have "k < 8"
  proof (rule ccontr)
    assume "\<not> k < 8"
    then have "(2::nat) ^ 8 \<le> 2 ^ k" by (intro power_increasing) simp_all
    with a show False by simp
  qed
  then have "(2::nat) ^ k \<le> 2 ^ 7" by (intro power_increasing) simp_all
  with assms show False by simp
qed

lemma thousand_calls_length: "length thousand_calls = 1000"
  by (simp add: thousand_calls_def)

lemma thousand_calls_distinct: "distinct (map fst thousand_calls)"
proof -
  have "inj_on (word_of_nat :: nat \<Rightarrow> 32 word) {0..<1000}"
  proof (rule inj_onI)
    fix x y :: nat
    assume "x \<in> {0..<1000}" "y \<in> {0..<1000}" and eq: "(word_of_nat x :: 32 word) = word_of_nat y"
    then have "x < 2 ^ LENGTH(32)" "y < 2 ^ LENGTH(32)" by simp_all
    with eq show "x = y"
      by (metis of_nat_inverse)
  qed
  then show ?thesis
    by (simp add: thousand_calls_def distinct_map comp_def)
qed

section \<open>Prefix insertion\<close>

lemma node_ctor_prefix_eq:
  "NUL \<notin> set x \<Longrightarrow>
     node_ctor_prefix (x @ [NUL]) (length x) s n h = node_ctor (x @ s) (length x + n) h"
  by (simp add: node_ctor_prefix_def node_ctor_def strncpy_append strncpy_terminated)

lemma node_ctor_c_str:
  "NUL \<notin> set x \<Longrightarrow>
     node_ctor (c_str (x @ std_string s)) (length x + n) h = node_ctor (x @ s) (length x + n) h"
  using strncpy_std_string [of s "[]" n]
  by (simp add: node_ctor_def c_str_def strncpy_append)

lemma std_string_terminated: "NUL \<notin> set x \<Longrightarrow> std_string (x @ NUL # r) = x"
  by (induction x) (auto simp: std_string_def)

lemma stored_string_node:
  assumes "well_formed db" "map_database_lookup db p = Inr (x @ [NUL])"
  obtains pn where "pn \<in># entries db" "node_hash pn = p" "node_str pn = x @ [NUL]"
    "node_length pn = length x"
proof -
  have "stored db p"
    using assms lookup_absent [of db p] by auto
  then obtain pn where pn: "pn \<in># entries db" "node_hash pn = p"
    by (auto simp: stored_entries)
  with assms lookup_stored [of db pn] have s: "node_str pn = x @ [NUL]" by simp
  have "length (node_str pn) = Suc (node_length pn)"
    using assms(1) pn(1) chains_ok_node_str [of "no_buckets db" 0 "buckets db" pn]
    by (simp add: well_formed_def entries_def)
  with s have "node_length pn = length x" by simp
  with pn s show ?thesis by (rule that)
qed

section \<open>The example database as a run\<close>

lemma example_db_run:
  "run_calls (map_database_ctor 4 1) [Insert 1 ''a'' 1, Insert 2 ''x'' 1, Insert 3 ''ab'' 2] =
     Inr example_db"
  by (simp add: eval_defs example_db_def node_of_def strncpy_plain)

section \<open>Order and placement\<close>

lemma well_formed_sorted:
  assumes "well_formed db" "l \<in> set (buckets db)"
  shows "sorted_wrt (<) (map node_hash l)"
proof -
  from assms(2) obtain k where "k < length (buckets db)" "buckets db ! k = l"
    by (auto simp: in_set_conv_nth)
  with assms(1) well_formed_chain [of db k] show ?thesis
    by (auto simp: well_formed_def chain_ok_def)
qed

lemma well_formed_placed:
  assumes "well_formed db" "k < length (buckets db)" "x \<in> set (buckets db ! k)"
  shows "unat (node_hash x) mod no_buckets db = k"
  using assms well_formed_chain [of db k]
  by (auto simp: well_formed_def chain_ok_def list_all_iff)

lemma no_buckets_calls_fail:
  "map_database_insert (map_database_ctor 0 f) h s n = Inl Division_By_Zero"
  "map_database_insert_prefix (map_database_ctor 0 f) h p s n = Inl Division_By_Zero"
  by (simp_all add: map_database_insert_def map_database_insert_prefix_def grow_if_due_def
      map_database_rehash_def map_database_ctor_def)

lemma run_calls_no_buckets:
  "run_calls (map_database_ctor 0 f) calls = Inr db \<Longrightarrow> db = map_database_ctor 0 f"
proof (cases calls)
  case Nil
  assume "run_calls (map_database_ctor 0 f) calls = Inr db"
  with Nil show ?thesis by simp
next
  case (Cons c cs)
  assume "run_calls (map_database_ctor 0 f) calls = Inr db"
  with Cons show ?thesis by (cases c) (simp_all add: no_buckets_calls_fail)
qed

lemma example_db_rehash: "map_database_rehash example_db = Inr example_db_grown"
  by (simp add: eval_defs example_db_def example_db_grown_def node_of_def)

section \<open>The generator loop\<close>

lemma try_generate_loop_new:
  "try_generate_loop handle name make_id counter result new_string s = Some (Inr result, s)"
  by (subst try_generate_loop.simps) simp

lemma try_generate_loop_stop:
  "status \<noteq> new_string \<Longrightarrow> handle counter name result = Inr False \<Longrightarrow>
     try_generate_loop handle name make_id counter result status s = Some (Inr result, s)"
  by (subst try_generate_loop.simps) simp

lemma try_generate_loop_throw:
  "status \<noteq> new_string \<Longrightarrow> handle counter name result = Inl e \<Longrightarrow>
     try_generate_loop handle name make_id counter result status s = Some (Inl e, s)"
  by (subst try_generate_loop.simps) simp

lemma try_generate_loop_again:
  "status \<noteq> new_string \<Longrightarrow> handle counter name result = Inr True \<Longrightarrow>
     try_generate_loop handle name make_id counter result status s =
       try_generate_loop handle name make_id (counter + 1) (fst (fst (make_id s)))
         (snd (fst (make_id s))) (snd (make_id s))"
  by (subst try_generate_loop.simps) (simp add: case_prod_beta)

lemma default_loop_exhausts:
  assumes "\<And>t. snd (fst (make_id t)) \<noteq> new_string" "status \<noteq> new_string" "counter \<le> 8"
  shows "try_generate_loop
           (handle_generation_error default_generation_error_handler hash_code string_of)
           name make_id counter result status s =
         Some (Inl (Generation_Error name), ((\<lambda>t. snd (make_id t)) ^^ (8 - counter)) s)"
  using assms(2,3)
proof (induction "8 - counter" arbitrary: counter result status s)
  case 0
  then have "counter = 8" by simp
  with 0 show ?case
    by (simp add: try_generate_loop_throw handle_generation_error_def
        default_generation_error_handler_def no_tries_generation_def)
next
  case (Suc k)
  then have c: "counter < 8" by simp
  let ?h = "handle_generation_error default_generation_error_handler hash_code string_of"
  have hr: "?h counter name result = Inr True"
    using c by (simp add: handle_generation_error_def default_generation_error_handler_def
        no_tries_generation_def)
  have "try_generate_loop ?h name make_id counter result status s =
      try_generate_loop ?h name make_id (counter + 1) (fst (fst (make_id s)))
        (snd (fst (make_id s))) (snd (make_id s))"
    using Suc.prems(1) hr by (rule try_generate_loop_again)
  also have "\<dots> = Some (Inl (Generation_Error name),
      ((\<lambda>t. snd (make_id t)) ^^ (8 - (counter + 1))) (snd (make_id s)))"
    using Suc.hyps(2) c by (intro Suc.hyps(1) assms(1)) simp_all
  also have "((\<lambda>t. snd (make_id t)) ^^ (8 - (counter + 1))) (snd (make_id s)) =
      ((\<lambda>t. snd (make_id t)) ^^ (8 - counter)) s"
  proof -
    have "8 - counter = Suc (8 - (counter + 1))" using c by simp
    then show ?thesis by (simp only: funpow_Suc_right o_apply)
  qed
  finally show ?case .
qed

section \<open>The status of an insertion\<close>

text \<open>
  For strings without a terminator inside: a hash that is not stored gives \<open>new_string\<close> and
  the string is stored as it is; a hash that is stored gives \<open>old_string\<close> exactly when the
  \<open>n\<close> bytes of the inserted string are the first \<open>n\<close> bytes of the stored string, which
  may go on after them.
\<close>

lemma of_char_pos: "c \<noteq> NUL \<Longrightarrow> 0 < (of_char c :: nat)"
  using of_char_eq_iff [of c NUL, where ?'a = nat] by simp

lemma strncmp_stored:
  "n \<le> length s \<Longrightarrow> NUL \<notin> set (take n s) \<Longrightarrow> NUL \<notin> set y \<Longrightarrow>
     strncmp s (y @ [NUL]) n = 0 \<longleftrightarrow> n \<le> length y \<and> take n y = take n s"
proof (induction s "y @ [NUL]" n arbitrary: y rule: strncmp.induct)
  case (1 a)
  then show ?case by simp
next
  case (2 a n)
  from 2(2) obtain c cs where a: "a = c # cs" by (cases a) auto
  with 2(3) have c: "c \<noteq> NUL" by auto
  show ?case
  proof (cases y)
    case Nil
    with a c show ?thesis by (auto simp: of_char_pos)
  next
    case (Cons d ds)
    show ?thesis
    proof (cases "c = d")
      case True
      have "tl (y @ [NUL]) = ds @ [NUL]" by (simp add: Cons)
      with 2(1) [of ds] 2(2-4) a c True Cons show ?thesis by auto
    next
      case False
      with a Cons show ?thesis by auto
    qed
  qed
qed

lemma insert_status_of_fresh:
  assumes "well_formed db" "\<not> stored db h" "n \<le> length s" "NUL \<notin> set (take n s)"
  shows "\<exists>db'. map_database_insert db h s n = Inr (new_string, db') \<and>
           map_database_lookup db' h = Inr (take n s @ [NUL])"
proof -
  from grow_if_due_ok [OF assms(1)] obtain g where g: "grow_if_due db = Inr g" by blast
  from map_database_insert_new [OF assms(1,2) g, of s n]
  obtain db' where ins: "map_database_insert db h s n = Inr (new_string, db')"
    and wf': "well_formed db'" and e: "entries db' = add_mset (node_ctor s n h) (entries db)"
    by blast
  have "node_ctor s n h \<in># entries db'" by (simp add: e)
  from lookup_stored [OF wf' this] assms(3,4) ins show ?thesis
    by (simp add: node_ctor_def strncpy_plain)
qed

lemma insert_status_of_stored:
  assumes "well_formed db" "map_database_lookup db h = Inr (y @ [NUL])" "NUL \<notin> set y"
    and "n \<le> length s" "NUL \<notin> set (take n s)"
  shows "\<exists>db'. map_database_insert db h s n =
           Inr (if n \<le> length y \<and> take n y = take n s then old_string else collision, db')"
proof -
  from assms(1,2) obtain c where c: "c \<in># entries db" "node_hash c = h" "node_str c = y @ [NUL]"
    by (rule stored_string_node)
  from grow_if_due_ok [OF assms(1)] obtain g where g: "grow_if_due db = Inr g" by blast
  from map_database_insert_old [OF assms(1) c(1) g, of s n] c(2,3)
    strncmp_stored [OF assms(4,5,3)]
  show ?thesis by auto
qed

section \<open>Later calls\<close>

lemma example_db_four_insert:
  "map_database_insert example_db 9 ''cd'' 2 = Inr (new_string, example_db_four)"
  by (simp add: eval_defs example_db_def example_db_four_def node_of_def strncpy_plain)

lemma example_db_five_run:
  "run_calls example_db_four [Insert 3 ''b'' 1, Insert_Prefix 10 1 ''z'' 1] = Inr example_db_five"
  by (simp add: eval_defs example_db_four_def example_db_five_def node_of_def strncpy_plain)

lemma run_calls_keeps_entry:
  assumes "run_calls db1 calls = Inr db2" "well_formed db1" "c \<in># entries db1"
  shows "well_formed db2 \<and> c \<in># entries db2"
  using assms(1)
proof (rule run_calls_invariant)
  show "well_formed db1 \<and> c \<in># entries db1" using assms(2,3) by simp
next
  fix d h s n st d'
  assume "well_formed d \<and> c \<in># entries d" "map_database_insert d h s n = Inr (st, d')"
  then show "well_formed d' \<and> c \<in># entries d'"
    using map_database_insert_effect(1,3) [of d h s n st d'] by auto
next
  fix d h p s n st d'
  assume "well_formed d \<and> c \<in># entries d" "map_database_insert_prefix d h p s n = Inr (st, d')"
  then show "well_formed d' \<and> c \<in># entries d'"
    using map_database_insert_prefix_effect(1,4,5) [of d h p s n st d'] by (cases "st = new_string") auto
qed

section \<open>Strings with a terminator inside\<close>

lemma std_string_no_terminator: "NUL \<notin> set (std_string p)"
  by (auto simp: std_string_def dest: set_takeWhileD)

lemma thousand_calls_plain:
  "\<forall>(h, s, n)\<in>set thousand_calls. n \<le> length s \<and> NUL \<notin> set (take n s)"
  by (simp add: thousand_calls_def)

lemma cut_calls_length: "length cut_calls = 1000"
  by (simp add: cut_calls_def)

lemma cut_calls_distinct: "distinct (map fst cut_calls)"
proof -
  have "inj_on (word_of_nat :: nat \<Rightarrow> 32 word) {0..<1000}"
  proof (rule inj_onI)
    fix x y :: nat
    assume "x \<in> {0..<1000}" "y \<in> {0..<1000}" and eq: "(word_of_nat x :: 32 word) = word_of_nat y"
    then have "x < 2 ^ LENGTH(32)" "y < 2 ^ LENGTH(32)" by simp_all
    with eq show "x = y"
      by (metis of_nat_inverse)
  qed
  then show ?thesis
    by (simp add: cut_calls_def distinct_map comp_def)
qed

section \<open>The claims\<close>

text \<open>
  C1, as the source has it. Take any database reached by \<^verbatim>\<open>insert\<close> and
  \<^verbatim>\<open>insert_prefix\<close> calls from a constructed one, with any bucket count and load factor.
  When the bucket count is not zero, \<^verbatim>\<open>insert\<close> of a hash that has no entry returns
  \<open>new_string\<close>. Once \<^verbatim>\<open>insert(h, s, n)\<close> has returned \<open>new_string\<close>, then after any
  later \<^verbatim>\<open>insert\<close> and \<^verbatim>\<open>insert_prefix\<close> calls that have returned, accepted or
  rejected and with the rehashes they cause, \<^verbatim>\<open>lookup(h)\<close> returns what \<^verbatim>\<open>strncpy\<close>
  has copied of \<open>s\<close> and the terminator: the \<open>n\<close> bytes inserted, when there is no
  terminator among them.
\<close>

theorem inserted_pairs_stay_retrievable:
  assumes "run_calls (map_database_ctor b f) before = Inr db"
  shows "(0 < b \<and> \<not> stored db h \<longrightarrow>
            (\<exists>db1. map_database_insert db h s n = Inr (new_string, db1))) \<and>
         (map_database_insert db h s n = Inr (new_string, db1) \<and>
          run_calls db1 later = Inr db2 \<longrightarrow>
            map_database_lookup db2 h = Inr (strncpy s n @ [NUL]) \<and>
            (n \<le> length s \<and> NUL \<notin> set (take n s) \<longrightarrow>
               map_database_lookup db2 h = Inr (take n s @ [NUL])))"
proof (intro conjI impI; (elim conjE)?)
  assume b: "0 < b" and new: "\<not> stored db h"
  from assms b have wf: "well_formed db" by (rule run_calls_well_formed)
  from grow_if_due_ok [OF wf] obtain g where "grow_if_due db = Inr g" by blast
  from map_database_insert_new [OF wf new this, of s n]
  show "\<exists>db1. map_database_insert db h s n = Inr (new_string, db1)" by blast
next
  assume ins: "map_database_insert db h s n = Inr (new_string, db1)"
    and run: "run_calls db1 later = Inr db2"
  have b: "0 < b"
  proof (rule ccontr)
    assume "\<not> 0 < b"
    then have "b = 0" by simp
    with assms have "db = map_database_ctor 0 f" by (simp add: run_calls_no_buckets)
    with ins show False by (simp add: no_buckets_calls_fail)
  qed
  from assms b have wf: "well_formed db" by (rule run_calls_well_formed)
  note e = map_database_insert_effect(1,3) [OF wf ins]
  from e have "node_ctor s n h \<in># entries db1" by simp
  from run_calls_keeps_entry [OF run e(1) this]
  have "map_database_lookup db2 (node_hash (node_ctor s n h)) = Inr (node_str (node_ctor s n h))"
    by (intro lookup_stored) simp_all
  then show l: "map_database_lookup db2 h = Inr (strncpy s n @ [NUL])"
    by (simp add: node_ctor_def)
  assume "n \<le> length s" "NUL \<notin> set (take n s)"
  with l show "map_database_lookup db2 h = Inr (take n s @ [NUL])"
    by (simp add: strncpy_plain)
qed

theorem inserted_pairs_stay_retrievable_witness:
  "run_calls (map_database_ctor 4 1) [Insert 1 ''a'' 1, Insert 2 ''x'' 1, Insert 3 ''ab'' 2] =
     Inr example_db \<and>
   (0 :: nat) < 4 \<and> \<not> stored example_db 9 \<and>
   map_database_insert example_db 9 ''cd'' 2 = Inr (new_string, example_db_four) \<and>
   run_calls example_db_four [Insert 3 ''b'' 1, Insert_Prefix 10 1 ''z'' 1] = Inr example_db_five \<and>
   2 \<le> length ''cd'' \<and> NUL \<notin> set (take 2 ''cd'') \<and>
   map_database_lookup example_db_five 9 = Inr (''cd'' @ [NUL])"
proof -
  have new: "\<not> stored example_db 9" by (simp add: example_db_def stored_def node_of_def)
  have g: "2 \<le> length ''cd''" "NUL \<notin> set (take 2 ''cd'')" by simp_all
  note t = inserted_pairs_stay_retrievable [OF example_db_run, of 9 "''cd''" 2 example_db_four
      "[Insert 3 ''b'' 1, Insert_Prefix 10 1 ''z'' 1]" example_db_five]
  from t [THEN conjunct2] example_db_four_insert example_db_five_run g
  have "map_database_lookup example_db_five 9 = Inr (take 2 ''cd'' @ [NUL])" by blast
  then have "map_database_lookup example_db_five 9 = Inr (''cd'' @ [NUL])" by simp
  with example_db_run new example_db_four_insert example_db_five_run show ?thesis by simp
qed

text \<open>
  C1 as claimed fails for a string with a terminator inside: \<^verbatim>\<open>strncpy\<close> in the node's
  constructor stops at it and fills up with terminators, so the three bytes a, 0, b come back
  as a, 0, 0.
\<close>

theorem embedded_terminator_cut:
  "run_calls (map_database_ctor 4 1) [] = Inr (map_database_ctor 4 1) \<and>
   map_database_insert (map_database_ctor 4 1) 1 [CHR ''a'', NUL, CHR ''b''] 3 =
     Inr (new_string, padded_db) \<and>
   run_calls padded_db [] = Inr padded_db \<and>
   map_database_lookup padded_db 1 = Inr [CHR ''a'', NUL, NUL, NUL] \<and>
   [CHR ''a'', NUL, NUL, NUL] \<noteq> [CHR ''a'', NUL, CHR ''b''] @ [NUL]"
  by (simp add: eval_defs padded_db_def numeral_3_eq_3)

text \<open>
  C2 fails on the code. The database holds "abcdef" under hash 1 and "a" under hash 2.
  \<^verbatim>\<open>insert(1, "abc", 3)\<close> returns \<open>old_string\<close> although "abc" is not the stored string:
  \<^verbatim>\<open>strncmp\<close> compares the three bytes of "abc" only. \<^verbatim>\<open>insert_prefix(1, 2, "b", 1)\<close>
  returns \<open>old_string\<close> in the same way although "ab" is not the stored string.
\<close>

theorem shorter_string_taken_for_old:
  "insert_seq (map_database_ctor 4 1) [(1, ''abcdef'', 6), (2, ''a'', 1)] =
     Inr ([new_string, new_string], long_db) \<and>
   map_database_lookup long_db 1 = Inr (''abcdef'' @ [NUL]) \<and>
   map_database_insert long_db 1 ''abc'' 3 = Inr (old_string, long_db) \<and>
   map_database_lookup long_db 2 = Inr (''a'' @ [NUL]) \<and>
   map_database_insert_prefix long_db 1 2 ''b'' 1 = Inr (old_string, long_db)"
  by (simp add: eval_defs long_db_def node_of_def numeral_3_eq_3 strncpy_plain)

text \<open>
  C3, as the source has it. In a well-formed database where \<^verbatim>\<open>lookup\<close> of the prefix
  hash \<open>p\<close> returns the string \<open>x\<close> (the bytes up to the first terminator) and the hash \<open>h\<close>
  has no entry: the default \<^verbatim>\<open>insert_prefix(h, p, suffix, n)\<close> of \<^verbatim>\<open>basic_database\<close>, run
  on the \<^verbatim>\<open>lookup\<close> and \<^verbatim>\<open>insert\<close> of \<^verbatim>\<open>map_database\<close>, returns the same status and
  leaves the same database as \<^verbatim>\<open>insert(h, x + suffix, len(x) + n)\<close>; so does the override
  of \<^verbatim>\<open>map_database\<close> when the bytes stored for \<open>p\<close> are \<open>x\<close> and one terminator, that is
  when the length stored for \<open>p\<close> is the length of \<open>x\<close>. The status is \<open>new_string\<close> and the
  string stored for \<open>h\<close> is \<open>x\<close> followed by what \<^verbatim>\<open>strncpy\<close> copies of the suffix.
\<close>

theorem insert_prefix_as_insert:
  assumes "well_formed db" "map_database_lookup db p = Inr bytes" "std_string bytes = x"
    and "\<not> stored db h"
  shows "basic_database_insert_prefix map_database_lookup map_database_insert db h p suffix n =
           map_database_insert db h (x @ suffix) (length x + n) \<and>
         (bytes = x @ [NUL] \<longrightarrow>
            map_database_insert_prefix db h p suffix n =
              map_database_insert db h (x @ suffix) (length x + n)) \<and>
         (\<exists>db'. map_database_insert db h (x @ suffix) (length x + n) = Inr (new_string, db') \<and>
                map_database_lookup db' h = Inr (x @ strncpy suffix n @ [NUL]))"
proof -
  have x: "NUL \<notin> set x" using assms(3) std_string_no_terminator [of bytes] by simp
  from grow_if_due_ok [OF assms(1)] obtain g where g: "grow_if_due db = Inr g" by blast
  note gp = grow_if_due_props [OF assms(1) g]
  let ?i = "unat h mod no_buckets g"
  have i: "?i < no_buckets g" using gp(1) by (rule bucket_index)
  then have len: "?i < length (buckets g)" using gp(1) by (simp add: well_formed_def)
  have "\<not> stored g h" using assms(1,4) g by (simp add: grow_if_due_stored)
  then have "h \<notin> node_hash ` set (buckets g ! ?i)"
    using bucket_entries [OF len] by (auto simp: stored_entries)
  then obtain b a where pos: "insert_pos (buckets g ! ?i) h = Pos_Between b a"
    by (rule insert_pos_absent)
  have "map_database_insert db h (c_str (x @ std_string suffix)) (length x + n) =
      map_database_insert db h (x @ suffix) (length x + n)"
    using g i pos x
    by (simp add: map_database_insert_def node_list_insert_def node_ctor_c_str)
  then have 1: "basic_database_insert_prefix map_database_lookup map_database_insert
      db h p suffix n = map_database_insert db h (x @ suffix) (length x + n)"
    using assms(2,3) by (simp add: basic_database_insert_prefix_def)
  have 2: "map_database_insert_prefix db h p suffix n =
      map_database_insert db h (x @ suffix) (length x + n)" if b: "bytes = x @ [NUL]"
  proof -
    from assms(1) assms(2) [unfolded b] obtain pn where pn: "pn \<in># entries db" "node_hash pn = p"
      "node_str pn = x @ [NUL]" "node_length pn = length x"
      by (rule stored_string_node)
    have f: "find_node (buckets g ! (unat p mod no_buckets g)) p = Inr pn"
      using find_prefix_node [of g pn] gp(1,2) pn(1,2) by simp
    show ?thesis
      using g i pos f pn(3,4) x
      by (simp add: map_database_insert_prefix_def map_database_insert_def
          node_list_insert_prefix_def node_list_insert_def node_ctor_prefix_eq)
  qed
  from map_database_insert_new [OF assms(1,4) g, of "x @ suffix" "length x + n"]
  obtain db' where ins: "map_database_insert db h (x @ suffix) (length x + n) = Inr (new_string, db')"
    and wf': "well_formed db'"
    and e: "entries db' = add_mset (node_ctor (x @ suffix) (length x + n) h) (entries db)"
    by blast
  have "node_ctor (x @ suffix) (length x + n) h \<in># entries db'" by (simp add: e)
  from lookup_stored [OF wf' this] x
  have "map_database_lookup db' h = Inr (x @ strncpy suffix n @ [NUL])"
    by (simp add: node_ctor_def strncpy_append)
  with 1 2 ins show ?thesis by blast
qed

theorem insert_prefix_as_insert_witness:
  "well_formed example_db \<and> map_database_lookup example_db 3 = Inr (''ab'' @ [NUL]) \<and>
   std_string (''ab'' @ [NUL]) = ''ab'' \<and> \<not> stored example_db 9 \<and>
   ''ab'' @ [NUL] = ''ab'' @ [NUL] \<and>
   basic_database_insert_prefix map_database_lookup map_database_insert example_db 9 3 ''cd'' 2 =
     map_database_insert example_db 9 (''ab'' @ ''cd'') (length ''ab'' + 2) \<and>
   map_database_insert_prefix example_db 9 3 ''cd'' 2 =
     map_database_insert example_db 9 (''ab'' @ ''cd'') (length ''ab'' + 2) \<and>
   (\<exists>db'. map_database_insert example_db 9 (''ab'' @ ''cd'') (length ''ab'' + 2) =
            Inr (new_string, db') \<and>
          map_database_lookup db' 9 = Inr (''abcd'' @ [NUL]))"
proof -
  have wf: "well_formed example_db" by (simp add: example_defs)
  have p: "map_database_lookup example_db 3 = Inr (''ab'' @ [NUL])"
    by (simp add: eval_defs example_db_def node_of_def)
  have x: "std_string (''ab'' @ [NUL]) = ''ab''" by (simp add: std_string_def)
  have new: "\<not> stored example_db 9" by (simp add: example_defs)
  have c: "strncpy ''cd'' 2 = ''cd''" by (simp add: strncpy_plain)
  note t = insert_prefix_as_insert [OF wf p x new, of "''cd''" 2]
  from t have 1: "basic_database_insert_prefix map_database_lookup map_database_insert
      example_db 9 3 ''cd'' 2 =
      map_database_insert example_db 9 (''ab'' @ ''cd'') (length ''ab'' + 2)" by blast
  from t have 2: "map_database_insert_prefix example_db 9 3 ''cd'' 2 =
      map_database_insert example_db 9 (''ab'' @ ''cd'') (length ''ab'' + 2)" by blast
  from t have 3: "\<exists>db'. map_database_insert example_db 9 (''ab'' @ ''cd'') (length ''ab'' + 2) =
      Inr (new_string, db') \<and>
      map_database_lookup db' 9 = Inr (''ab'' @ strncpy ''cd'' 2 @ [NUL])" by blast
  then have 4: "\<exists>db'. map_database_insert example_db 9 (''ab'' @ ''cd'') (length ''ab'' + 2) =
      Inr (new_string, db') \<and> map_database_lookup db' 9 = Inr (''abcd'' @ [NUL])"
    by (simp only: c) simp
  from wf p x new 1 2 4 show ?thesis by blast
qed

text \<open>
  C3 as claimed fails for the override where the length stored for the prefix is not the
  length of its string. After \<^verbatim>\<open>insert(1, "a", 3)\<close> the prefix is stored as a, 0, 0 under
  length 3 and \<^verbatim>\<open>lookup(1)\<close> returns the string "a". \<^verbatim>\<open>insert_prefix(2, 1, "b", 1)\<close>
  copies three bytes of the prefix and stores a, 0, 0, b under length 4, while
  \<^verbatim>\<open>insert(2, "ab", 2)\<close> and the default \<^verbatim>\<open>insert_prefix\<close> store a, b under length 2.
\<close>

theorem insert_prefix_copies_stored_length:
  "map_database_insert (map_database_ctor 4 1) 1 [CHR ''a'', NUL] 3 = Inr (new_string, padded_db) \<and>
   map_database_lookup padded_db 1 = Inr [CHR ''a'', NUL, NUL, NUL] \<and>
   std_string [CHR ''a'', NUL, NUL, NUL] = ''a'' \<and>
   \<not> stored padded_db 2 \<and>
   map_database_insert_prefix padded_db 2 1 ''b'' 1 = Inr (new_string, padded_override_db) \<and>
   map_database_insert padded_db 2 (''a'' @ ''b'') (length ''a'' + 1) =
     Inr (new_string, padded_insert_db) \<and>
   basic_database_insert_prefix map_database_lookup map_database_insert padded_db 2 1 ''b'' 1 =
     Inr (new_string, padded_insert_db) \<and>
   map_database_lookup padded_override_db 2 = Inr [CHR ''a'', NUL, NUL, CHR ''b'', NUL] \<and>
   map_database_lookup padded_insert_db 2 = Inr [CHR ''a'', CHR ''b'', NUL] \<and>
   [CHR ''a'', NUL, NUL, CHR ''b'', NUL] \<noteq> [CHR ''a'', CHR ''b'', NUL]"
proof (intro conjI)
  show "map_database_insert (map_database_ctor 4 1) 1 [CHR ''a'', NUL] 3 = Inr (new_string, padded_db)"
    by (simp add: eval_defs padded_db_def numeral_3_eq_3)
  show "map_database_lookup padded_db 1 = Inr [CHR ''a'', NUL, NUL, NUL]"
    by (simp add: eval_defs padded_db_def)
  show "std_string [CHR ''a'', NUL, NUL, NUL] = ''a''"
    by (simp add: std_string_def)
  show "\<not> stored padded_db 2"
    by (simp add: padded_db_def stored_def)
  show "map_database_insert_prefix padded_db 2 1 ''b'' 1 = Inr (new_string, padded_override_db)"
    by (simp add: eval_defs padded_db_def padded_override_db_def numeral_3_eq_3)
  show ins: "map_database_insert padded_db 2 (''a'' @ ''b'') (length ''a'' + 1) =
      Inr (new_string, padded_insert_db)"
    by (simp add: eval_defs padded_db_def padded_insert_db_def strncpy_plain)
  show "basic_database_insert_prefix map_database_lookup map_database_insert padded_db 2 1 ''b'' 1 =
      Inr (new_string, padded_insert_db)"
    by (simp add: eval_defs basic_database_insert_prefix_def std_string_def c_str_def
        padded_db_def padded_insert_db_def strncpy_plain)
  show "map_database_lookup padded_override_db 2 = Inr [CHR ''a'', NUL, NUL, CHR ''b'', NUL]"
    by (simp add: eval_defs padded_override_db_def)
  show "map_database_lookup padded_insert_db 2 = Inr [CHR ''a'', CHR ''b'', NUL]"
    by (simp add: eval_defs padded_insert_db_def)
  show "[CHR ''a'', NUL, NUL, CHR ''b'', NUL] \<noteq> [CHR ''a'', CHR ''b'', NUL]"
    by simp
qed

text \<open>
  C4, as the source has it. \<^verbatim>\<open>node_list::insert_prefix\<close> calls \<^verbatim>\<open>find_node\<close> on the
  prefix bucket before \<^verbatim>\<open>insert_pos\<close> looks for the hash. In a well-formed database
  where the hash has an entry: when the prefix hash has none, the call fails on the assertion
  of \<^verbatim>\<open>find_node\<close>; when it has one, the call returns \<open>old_string\<close> or \<open>collision\<close> as
  \<^verbatim>\<open>strequal\<close> decides on the prefix's string, the suffix and the stored string, and
  leaves the entries and the item count as they were.
\<close>

theorem insert_prefix_existing:
  assumes "well_formed db" "c \<in># entries db"
  shows "(\<not> stored db p \<longrightarrow>
            map_database_insert_prefix db (node_hash c) p s n = Inl Hash_Not_Inserted) \<and>
         (\<forall>pn. pn \<in># entries db \<and> node_hash pn = p \<longrightarrow>
            (\<exists>db'. map_database_insert_prefix db (node_hash c) p s n =
                     Inr (if strequal (node_str pn) s n (node_str c) then old_string
                          else collision, db') \<and>
                   entries db' = entries db \<and> no_items db' = no_items db))"
proof (intro conjI impI allI)
  assume "\<not> stored db p"
  with assms(1) show "map_database_insert_prefix db (node_hash c) p s n = Inl Hash_Not_Inserted"
    by (rule map_database_insert_prefix_no_prefix)
next
  fix pn
  assume pn: "pn \<in># entries db \<and> node_hash pn = p"
  from grow_if_due_ok [OF assms(1)] obtain g where g: "grow_if_due db = Inr g" by blast
  from map_database_insert_prefix_old [OF assms pn [THEN conjunct1] g, of s n] pn
    grow_if_due_props(2,3) [OF assms(1) g]
  show "\<exists>db'. map_database_insert_prefix db (node_hash c) p s n =
                Inr (if strequal (node_str pn) s n (node_str c) then old_string
                     else collision, db') \<and>
              entries db' = entries db \<and> no_items db' = no_items db"
    by auto
qed

theorem insert_prefix_existing_witness:
  "well_formed (prefix_db ''a'') \<and> node_of 2 ''ab'' \<in># entries (prefix_db ''a'') \<and>
   node_of 1 ''a'' \<in># entries (prefix_db ''a'') \<and> node_hash (node_of 1 ''a'' :: 32 word node) = 1 \<and>
   (\<exists>db'. map_database_insert_prefix (prefix_db ''a'') 2 1 ''b'' 1 = Inr (old_string, db') \<and>
          entries db' = entries (prefix_db ''a'') \<and> no_items db' = no_items (prefix_db ''a'')) \<and>
   well_formed no_prefix_db \<and> node_of 2 ''ab'' \<in># entries no_prefix_db \<and>
   \<not> stored no_prefix_db 1 \<and>
   map_database_insert_prefix no_prefix_db 2 1 ''b'' 1 = Inl Hash_Not_Inserted"
proof -
  have wf: "well_formed (prefix_db ''a'')" "well_formed no_prefix_db"
    by (simp_all add: prefix_db_def no_prefix_db_def node_of_def well_formed_def chain_ok_def)
  have c: "node_of 2 ''ab'' \<in># entries (prefix_db ''a'')" "node_of 2 ''ab'' \<in># entries no_prefix_db"
    and pn: "node_of 1 ''a'' \<in># entries (prefix_db ''a'')"
    and no: "\<not> stored no_prefix_db 1"
    by (simp_all add: prefix_db_def no_prefix_db_def entries_def stored_def node_of_def)
  have h: "node_hash (node_of 1 ''a'' :: 32 word node) = 1" "node_hash (node_of 2 ''ab'' :: 32 word node) = 2"
    by (simp_all add: node_of_def)
  have eq: "strequal (node_str (node_of 1 ''a'' :: 32 word node)) ''b'' 1
      (node_str (node_of 2 ''ab'' :: 32 word node))"
    by (simp add: node_of_def)
  have "\<exists>db'. map_database_insert_prefix (prefix_db ''a'') 2 1 ''b'' 1 = Inr (old_string, db') \<and>
      entries db' = entries (prefix_db ''a'') \<and> no_items db' = no_items (prefix_db ''a'')"
    using insert_prefix_existing [OF wf(1) c(1), of 1 "''b''" 1] pn h eq by auto
  moreover have "map_database_insert_prefix no_prefix_db 2 1 ''b'' 1 = Inl Hash_Not_Inserted"
    using insert_prefix_existing [OF wf(2) c(2), of 1 "''b''" 1] no h by simp
  ultimately show ?thesis
    using wf c pn no h by blast
qed

text \<open>
  C4 as claimed fails: two databases that differ only in the string of the prefix entry give
  \<open>old_string\<close> and \<open>collision\<close> for the same call on a hash that is stored, and without
  the prefix entry the same call fails although the hash is stored.
\<close>

theorem insert_prefix_reads_prefix_first:
  "map_database_insert_prefix (prefix_db ''a'') 2 1 ''b'' 1 = Inr (old_string, prefix_db ''a'') \<and>
   map_database_insert_prefix (prefix_db ''x'') 2 1 ''b'' 1 = Inr (collision, prefix_db ''x'') \<and>
   map_database_lookup no_prefix_db 2 = Inr (''ab'' @ [NUL]) \<and>
   map_database_insert_prefix no_prefix_db 2 1 ''b'' 1 = Inl Hash_Not_Inserted"
  by (simp add: eval_defs prefix_db_def no_prefix_db_def node_of_def)

text \<open>
  C5 fails on the code. A database constructed with 4 buckets and maximum load factor 1/16
  holds one item in 8 buckets after its first insertion: the item count divided by the bucket
  count is 1/8 and exceeds the maximum load factor. \<^verbatim>\<open>insert\<close> grows the array once, by
  one \<^verbatim>\<open>if\<close>, and inserts although the threshold of the grown array, the floor of 8/16,
  is still 0. The products 4/16 and 8/16 are exact in \<^verbatim>\<open>double\<close>.
\<close>

theorem load_factor_exceeded:
  "map_database_insert (map_database_ctor 4 (1 / 16)) 1 ''a'' 1 = Inr (new_string, sparse_db) \<and>
   no_items sparse_db = 1 \<and> no_buckets sparse_db = 8 \<and> max_load_factor sparse_db = 1 / 16 \<and>
   \<not> real (no_items sparse_db) / real (no_buckets sparse_db) \<le> max_load_factor sparse_db"
  by (simp add: eval_defs sparse_db_def node_of_def)

text \<open>
  C6. In every state that \<^verbatim>\<open>insert\<close> and \<^verbatim>\<open>insert_prefix\<close> calls lead to from a
  constructed database, every chain increases strictly by hash, and
  \<^verbatim>\<open>rehash\<close> returns a database with twice the buckets in which every node lies in the
  bucket of its hash modulo the new bucket count, whose entries are the same multiset, and
  whose chains increase strictly by hash; so do the chains after a further \<^verbatim>\<open>insert\<close> or
  \<^verbatim>\<open>insert_prefix\<close>.
\<close>

theorem rehash_keeps_entries_and_order:
  assumes "run_calls (map_database_ctor b f) calls = Inr db"
  shows "(\<forall>l\<in>set (buckets db). sorted_wrt (<) (map node_hash l)) \<and>
         (\<exists>db'. map_database_rehash db = Inr db' \<and>
            no_buckets db' = 2 * no_buckets db \<and> length (buckets db') = 2 * no_buckets db \<and>
            (\<forall>k<length (buckets db'). \<forall>x\<in>set (buckets db' ! k).
               unat (node_hash x) mod (2 * no_buckets db) = k) \<and>
            entries db' = entries db \<and>
            (\<forall>l\<in>set (buckets db'). sorted_wrt (<) (map node_hash l))) \<and>
         (map_database_insert db h s n = Inr (st, d) \<longrightarrow>
            (\<forall>l\<in>set (buckets d). sorted_wrt (<) (map node_hash l))) \<and>
         (map_database_insert_prefix db h p s n = Inr (st, d) \<longrightarrow>
            (\<forall>l\<in>set (buckets d). sorted_wrt (<) (map node_hash l)))"
proof (cases "b = 0")
  case True
  with assms have "db = map_database_ctor 0 f" by (simp add: run_calls_no_buckets)
  then show ?thesis
    by (simp add: no_buckets_calls_fail)
      (simp add: map_database_rehash_def map_database_ctor_def entries_def)
next
  case False
  with assms have wf: "well_formed db" by (intro run_calls_well_formed) simp_all
  from map_database_rehash_ok [OF wf]
  obtain db' where r: "map_database_rehash db = Inr db'" and wf': "well_formed db'"
    and e: "entries db' = entries db" and nb: "no_buckets db' = 2 * no_buckets db"
    by blast
  have len: "length (buckets db') = 2 * no_buckets db"
    using wf' nb by (simp add: well_formed_def)
  have placed: "\<forall>k<length (buckets db'). \<forall>x\<in>set (buckets db' ! k).
      unat (node_hash x) mod (2 * no_buckets db) = k"
    using well_formed_placed [OF wf'] nb by auto
  have 1: "\<forall>l\<in>set (buckets db). sorted_wrt (<) (map node_hash l)"
    using well_formed_sorted [OF wf] by blast
  have 2: "\<forall>l\<in>set (buckets db'). sorted_wrt (<) (map node_hash l)"
    using well_formed_sorted [OF wf'] by blast
  have 3: "\<forall>l\<in>set (buckets d). sorted_wrt (<) (map node_hash l)"
    if "map_database_insert db h s n = Inr (st, d)"
    using well_formed_sorted [OF map_database_insert_effect(1) [OF wf that]] by blast
  have 4: "\<forall>l\<in>set (buckets d). sorted_wrt (<) (map node_hash l)"
    if "map_database_insert_prefix db h p s n = Inr (st, d)"
    using well_formed_sorted [OF map_database_insert_prefix_effect(1) [OF wf that]] by blast
  from r nb len placed e 1 2 3 4 show ?thesis by blast
qed

theorem rehash_keeps_entries_and_order_witness:
  "run_calls (map_database_ctor 4 1) [Insert 1 ''a'' 1, Insert 2 ''x'' 1, Insert 3 ''ab'' 2] =
     Inr example_db \<and>
   map_database_rehash example_db = Inr example_db_grown \<and>
   no_buckets example_db_grown = 2 * no_buckets example_db \<and>
   entries example_db_grown = entries example_db \<and>
   map_database_insert example_db 3 ''b'' 1 = Inr (collision, example_db_grown) \<and>
   map_database_insert_prefix example_db 3 1 ''b'' 1 = Inr (old_string, example_db_grown) \<and>
   sorted_wrt (<) (map node_hash (buckets example_db_grown ! 3))"
proof -
  note t = rehash_keeps_entries_and_order [OF example_db_run,
      of 3 "''b''" 1 collision example_db_grown 1]
  have m: "buckets example_db_grown ! 3 \<in> set (buckets example_db_grown)"
    by (simp add: example_db_grown_def)
  from t example_db_rehash have "no_buckets example_db_grown = 2 * no_buckets example_db"
    "entries example_db_grown = entries example_db" by auto
  moreover from t example_insert_collision m
  have "sorted_wrt (<) (map node_hash (buckets example_db_grown ! 3))" by blast
  ultimately show ?thesis
    using example_db_run example_db_rehash example_insert_collision
      example_insert_prefix_old by blast
qed

text \<open>
  C7, as the source has it. A thousand \<^verbatim>\<open>insert\<close> calls with pairwise different hashes,
  of strings without a terminator among their \<open>n\<close> bytes, on a database constructed with 4
  buckets and maximum load factor 1 all return \<open>new_string\<close>; afterwards every one of the
  thousand lookups returns the \<open>n\<close> bytes inserted for its hash and the terminator, the item
  count is 1000, and the bucket count is 4 doubled some number of times and at least 1024.
\<close>

theorem thousand_inserts:
  assumes "length calls = 1000" "distinct (map fst calls)"
    and "\<forall>(h, s, n)\<in>set calls. n \<le> length s \<and> NUL \<notin> set (take n s)"
  shows "\<exists>db. insert_seq (map_database_ctor 4 1) calls = Inr (replicate 1000 new_string, db) \<and>
              (\<forall>(h, s, n)\<in>set calls. map_database_lookup db h = Inr (take n s @ [NUL])) \<and>
              no_items db = 1000 \<and> 1024 \<le> no_buckets db \<and> (\<exists>k. no_buckets db = 4 * 2 ^ k)"
proof -
  let ?db0 = "map_database_ctor 4 1 :: 'a word map_database"
  have wf: "well_formed ?db0" by (simp add: well_formed_ctor)
  have "\<forall>h\<in>fst ` set calls. \<not> stored ?db0 h"
    by (simp add: stored_entries entries_ctor)
  from insert_seq_fresh [OF wf assms(2) this]
  obtain db where run: "insert_seq ?db0 calls = Inr (replicate (length calls) new_string, db)"
    and wf': "well_formed db"
    and e: "entries db = entries ?db0 + mset (map (\<lambda>(h, s, n). node_ctor s n h) calls)"
    and n: "no_items db = no_items ?db0 + length calls"
    by blast
  have items: "no_items db = 1000" using n assms(1) by (simp add: map_database_ctor_def)
  have "doubling_state db" using doubling_state_ctor run by (rule doubling_state_insert_seq)
  then obtain k where lt: "no_items db < no_buckets db" and k: "no_buckets db = 4 * 2 ^ k"
    by (auto simp: doubling_state_def)
  have big: "1024 \<le> no_buckets db"
    using lt items four_doublings_bound [of k] by (simp add: k)
  have "map_database_lookup db h = Inr (take n s @ [NUL])" if "(h, s, n) \<in> set calls" for h s n
    using insert_seq_lookup [OF wf' e that] assms(3) that by (auto simp: strncpy_plain)
  with run items big k assms(1) show ?thesis by auto
qed

theorem thousand_inserts_witness:
  "length thousand_calls = 1000 \<and> distinct (map fst thousand_calls) \<and>
   (999, ''id'', 2) \<in> set thousand_calls \<and> 2 \<le> length ''id'' \<and> NUL \<notin> set (take 2 ''id'') \<and>
   (\<exists>db. insert_seq (map_database_ctor 4 1) thousand_calls = Inr (replicate 1000 new_string, db) \<and>
      map_database_lookup db 999 = Inr (''id'' @ [NUL]) \<and>
      no_items db = 1000 \<and> 1024 \<le> no_buckets db)"
proof -
  have in_calls: "(999, ''id'', 2) \<in> set thousand_calls"
    by (simp add: thousand_calls_def image_iff) (rule bexI [of _ 999], simp_all)
  from thousand_inserts [OF thousand_calls_length thousand_calls_distinct thousand_calls_plain]
  obtain db where "insert_seq (map_database_ctor 4 1) thousand_calls = Inr (replicate 1000 new_string, db)"
    and all: "\<forall>(h, s, n)\<in>set thousand_calls. map_database_lookup db h = Inr (take n s @ [NUL])"
    and "no_items db = 1000" "1024 \<le> no_buckets db"
    by blast
  moreover from all in_calls have "map_database_lookup db 999 = Inr (''id'' @ [NUL])"
    by auto
  ultimately show ?thesis
    using thousand_calls_length thousand_calls_distinct in_calls by auto
qed

text \<open>
  C7 as claimed fails for strings with a terminator inside: of a thousand insertions of the
  three bytes a, 0, b under the hashes 0 to 999, the lookup of hash 999 returns a, 0, 0.
\<close>

theorem thousand_cut_strings:
  "length cut_calls = 1000 \<and> distinct (map fst cut_calls) \<and>
   (999, [CHR ''a'', NUL, CHR ''b''], 3) \<in> set cut_calls \<and>
   lookup_after (map_database_ctor 4 1) cut_calls 999 = Inr [CHR ''a'', NUL, NUL, NUL] \<and>
   [CHR ''a'', NUL, NUL, NUL] \<noteq> [CHR ''a'', NUL, CHR ''b''] @ [NUL]"
proof -
  let ?db0 = "map_database_ctor 4 1 :: 32 word map_database"
  have in_calls: "(999, [CHR ''a'', NUL, CHR ''b''], 3) \<in> set cut_calls"
    by (simp add: cut_calls_def image_iff) (rule bexI [of _ 999], simp_all)
  have wf: "well_formed ?db0" by (simp add: well_formed_ctor)
  have "\<forall>h\<in>fst ` set cut_calls. \<not> stored ?db0 h"
    by (simp add: stored_entries entries_ctor)
  from insert_seq_fresh [OF wf cut_calls_distinct this]
  obtain db where run: "insert_seq ?db0 cut_calls = Inr (replicate (length cut_calls) new_string, db)"
    and wf': "well_formed db"
    and e: "entries db = entries ?db0 + mset (map (\<lambda>(h, s, n). node_ctor s n h) cut_calls)"
    by blast
  have "map_database_lookup db 999 = Inr (strncpy [CHR ''a'', NUL, CHR ''b''] 3 @ [NUL])"
    by (rule insert_seq_lookup [OF wf' e in_calls])
  then have "map_database_lookup db 999 = Inr [CHR ''a'', NUL, NUL, NUL]"
    by (simp add: numeral_3_eq_3)
  with run have "lookup_after ?db0 cut_calls 999 = Inr [CHR ''a'', NUL, NUL, NUL]"
    by (simp add: lookup_after_def)
  with cut_calls_length cut_calls_distinct in_calls show ?thesis by simp
qed

text \<open>
  C8. In a well-formed database, an \<^verbatim>\<open>insert\<close> or \<^verbatim>\<open>insert_prefix\<close> that returns
  \<open>old_string\<close> or \<open>collision\<close> leaves the entries and the item count as they were, every
  lookup gives what it gave before, and the entry stored for the hash is still retrieved.
  Inserting a pair whose hash is not stored and then the same pair again returns \<open>new_string\<close>
  and then \<open>old_string\<close>; the item count goes up by one at the first call and stays at the
  second.
\<close>

theorem rejected_insert_changes_nothing:
  assumes "well_formed db"
  shows "(map_database_insert db h s n = Inr (st, db') \<and> st \<noteq> new_string \<longrightarrow>
            entries db' = entries db \<and> no_items db' = no_items db \<and>
            (\<forall>k. map_database_lookup db' k = map_database_lookup db k) \<and>
            (\<exists>c. c \<in># entries db \<and> node_hash c = h \<and>
                 map_database_lookup db' h = Inr (node_str c))) \<and>
         (map_database_insert_prefix db h p s n = Inr (st, db') \<and> st \<noteq> new_string \<longrightarrow>
            entries db' = entries db \<and> no_items db' = no_items db \<and>
            (\<forall>k. map_database_lookup db' k = map_database_lookup db k) \<and>
            (\<exists>c. c \<in># entries db \<and> node_hash c = h \<and>
                 map_database_lookup db' h = Inr (node_str c))) \<and>
         (\<not> stored db h \<longrightarrow>
            (\<exists>db1 db2. map_database_insert db h s n = Inr (new_string, db1) \<and>
               no_items db1 = Suc (no_items db) \<and>
               map_database_insert db1 h s n = Inr (old_string, db2) \<and>
               no_items db2 = no_items db1 \<and> entries db2 = entries db1))"
proof (intro conjI impI)
  have same: "entries d = entries db \<and> no_items d = no_items db \<and>
      (\<forall>k. map_database_lookup d k = map_database_lookup db k) \<and>
      (\<exists>c. c \<in># entries db \<and> node_hash c = h \<and> map_database_lookup d h = Inr (node_str c))"
    if "well_formed d" "entries d = entries db" "no_items d = no_items db" "stored db h" for d
  proof -
    from that(4) obtain c where c: "c \<in># entries db" "node_hash c = h"
      by (auto simp: stored_entries)
    then have "map_database_lookup d h = Inr (node_str c)"
      using lookup_stored [of d c] that(1,2) by simp
    with c that lookup_entries_cong [OF assms that(1,2)] show ?thesis by blast
  qed
  {
    assume a: "map_database_insert db h s n = Inr (st, db') \<and> st \<noteq> new_string"
    note e = map_database_insert_effect [OF assms conjunct1 [OF a]]
    from a e have "well_formed db'" "entries db' = entries db" "no_items db' = no_items db"
      "stored db h" by auto
    from same [OF this]
    show "entries db' = entries db" "no_items db' = no_items db"
      "\<forall>k. map_database_lookup db' k = map_database_lookup db k"
      "\<exists>c. c \<in># entries db \<and> node_hash c = h \<and> map_database_lookup db' h = Inr (node_str c)"
      by blast+
  }
  {
    assume a: "map_database_insert_prefix db h p s n = Inr (st, db') \<and> st \<noteq> new_string"
    note e = map_database_insert_prefix_effect [OF assms conjunct1 [OF a]]
    from a e have "well_formed db'" "entries db' = entries db" "no_items db' = no_items db"
      "stored db h" by auto
    from same [OF this]
    show "entries db' = entries db" "no_items db' = no_items db"
      "\<forall>k. map_database_lookup db' k = map_database_lookup db k"
      "\<exists>c. c \<in># entries db \<and> node_hash c = h \<and> map_database_lookup db' h = Inr (node_str c)"
      by blast+
  }
  {
    assume new: "\<not> stored db h"
    from grow_if_due_ok [OF assms] obtain g where g: "grow_if_due db = Inr g" by blast
    from map_database_insert_new [OF assms new g, of s n]
    obtain db1 where db1: "map_database_insert db h s n = Inr (new_string, db1)"
      and wf1: "well_formed db1"
      and e1: "entries db1 = add_mset (node_ctor s n h) (entries db)"
      and n1: "no_items db1 = Suc (no_items db)"
      by blast
    from grow_if_due_ok [OF wf1] obtain db2 where db2: "grow_if_due db1 = Inr db2" by blast
    have c: "node_ctor s n h \<in># entries db1" by (simp add: e1)
    have "map_database_insert db1 h s n = Inr (old_string, db2)"
      using map_database_insert_old [OF wf1 c db2, of s n] strncmp_strncpy [of s n "[]"]
      by (simp add: node_ctor_def)
    with db1 n1 grow_if_due_props(2,3) [OF wf1 db2]
    show "\<exists>db1 db2. map_database_insert db h s n = Inr (new_string, db1) \<and>
               no_items db1 = Suc (no_items db) \<and>
               map_database_insert db1 h s n = Inr (old_string, db2) \<and>
               no_items db2 = no_items db1 \<and> entries db2 = entries db1"
      by blast
  }
qed

theorem rejected_insert_changes_nothing_witness:
  "well_formed example_db \<and>
   map_database_insert example_db 3 ''b'' 1 = Inr (collision, example_db_grown) \<and>
   collision \<noteq> new_string \<and>
   entries example_db_grown = entries example_db \<and>
   no_items example_db_grown = no_items example_db \<and>
   map_database_lookup example_db_grown 3 = map_database_lookup example_db 3 \<and>
   map_database_insert_prefix example_db 3 1 ''b'' 1 = Inr (old_string, example_db_grown) \<and>
   old_string \<noteq> new_string \<and>
   \<not> stored example_db 5 \<and>
   (\<exists>db1 db2. map_database_insert example_db 5 ''abc'' 3 = Inr (new_string, db1) \<and>
      no_items db1 = Suc (no_items example_db) \<and>
      map_database_insert db1 5 ''abc'' 3 = Inr (old_string, db2) \<and>
      no_items db2 = no_items db1 \<and> entries db2 = entries db1)"
proof -
  have wf: "well_formed example_db" by (simp add: example_defs)
  have new: "\<not> stored example_db 5" by (simp add: example_defs)
  note a = rejected_insert_changes_nothing [OF wf, of 3 "''b''" 1 collision example_db_grown 1]
  note b = rejected_insert_changes_nothing [OF wf, of 5 "''abc''" 3 collision example_db_grown 1]
  from a b wf new example_insert_collision example_insert_prefix_old
  show ?thesis by simp
qed

text \<open>
  C9. The default handler returns \<^verbatim>\<open>true\<close> for fewer than 8 tries and throws
  \<^verbatim>\<open>generation_error\<close> from 8 on. With it, a generator whose every candidate comes back
  with a status other than \<open>new_string\<close> makes 8 attempts and \<^verbatim>\<open>try_generate\<close> ends with
  \<^verbatim>\<open>generation_error\<close>. With any handler: while the status is not \<open>new_string\<close> and the
  handler returns \<^verbatim>\<open>true\<close>, the loop makes the next candidate (and so calls the insertion
  again) with the counter raised by one; when the handler returns \<^verbatim>\<open>false\<close>, the loop
  returns the last identifier as it is; and so it does when the status is \<open>new_string\<close>.
\<close>

theorem default_policy_eight_attempts:
  "default_generation_error_handler no name h str =
     (if no < 8 then Inr True else Inl (Generation_Error name)) \<and>
   ((\<forall>t. snd (fst (make_id t)) \<noteq> new_string) \<longrightarrow>
      try_generate (handle_generation_error default_generation_error_handler hash_code string_of)
        name make_id s =
      Some (Inl (Generation_Error name), ((\<lambda>t. snd (make_id t)) ^^ 8) s)) \<and>
   (status \<noteq> new_string \<and> handle counter name result = Inr True \<longrightarrow>
      try_generate_loop handle name make_id counter result status s =
      try_generate_loop handle name make_id (counter + 1) (fst (fst (make_id s)))
        (snd (fst (make_id s))) (snd (make_id s))) \<and>
   (status \<noteq> new_string \<and> handle counter name result = Inr False \<longrightarrow>
      try_generate_loop handle name make_id counter result status s = Some (Inr result, s)) \<and>
   try_generate_loop handle name make_id counter result new_string s = Some (Inr result, s)"
proof (intro conjI impI)
  show "default_generation_error_handler no name h str =
      (if no < 8 then Inr True else Inl (Generation_Error name))"
    by (simp add: default_generation_error_handler_def no_tries_generation_def)
next
  assume a: "\<forall>t. snd (fst (make_id t)) \<noteq> new_string"
  let ?h = "handle_generation_error default_generation_error_handler hash_code string_of"
  have "try_generate ?h name make_id s =
      try_generate_loop ?h name make_id 1 (fst (fst (make_id s))) (snd (fst (make_id s)))
        (snd (make_id s))"
    by (simp add: try_generate_def case_prod_beta)
  also have "\<dots> = Some (Inl (Generation_Error name),
      ((\<lambda>t. snd (make_id t)) ^^ (8 - 1)) (snd (make_id s)))"
    using a by (intro default_loop_exhausts) simp_all
  also have "((\<lambda>t. snd (make_id t)) ^^ (8 - 1)) (snd (make_id s)) =
      ((\<lambda>t. snd (make_id t)) ^^ 8) s"
    by (simp add: numeral_eq_Suc funpow_swap1)
  finally show "try_generate ?h name make_id s =
      Some (Inl (Generation_Error name), ((\<lambda>t. snd (make_id t)) ^^ 8) s)" .
next
  assume "status \<noteq> new_string \<and> handle counter name result = Inr True"
  then show "try_generate_loop handle name make_id counter result status s =
      try_generate_loop handle name make_id (counter + 1) (fst (fst (make_id s)))
        (snd (fst (make_id s))) (snd (make_id s))"
    by (intro try_generate_loop_again) simp_all
next
  assume "status \<noteq> new_string \<and> handle counter name result = Inr False"
  then show "try_generate_loop handle name make_id counter result status s = Some (Inr result, s)"
    by (intro try_generate_loop_stop) simp_all
next
  show "try_generate_loop handle name make_id counter result new_string s = Some (Inr result, s)"
    by (rule try_generate_loop_new)
qed

theorem default_policy_eight_attempts_witness:
  "(\<forall>t. snd (fst (always_old t)) \<noteq> new_string) \<and>
   try_generate (handle_generation_error default_generation_error_handler id (\<lambda>r. ''id''))
     ''counter_generator'' always_old 0 =
   Some (Inl (Generation_Error ''counter_generator''), 8) \<and>
   old_string \<noteq> new_string \<and>
   handle_generation_error default_generation_error_handler id (\<lambda>r. ''id'')
     7 ''counter_generator'' (6 :: nat) = Inr True \<and>
   try_generate_loop (handle_generation_error default_generation_error_handler id (\<lambda>r. ''id''))
     ''counter_generator'' always_old 7 6 old_string 7 =
   try_generate_loop (handle_generation_error default_generation_error_handler id (\<lambda>r. ''id''))
     ''counter_generator'' always_old 8 7 old_string 8 \<and>
   never_again 1 ''counter_generator'' 0 = Inr False \<and>
   try_generate_loop never_again ''counter_generator'' always_old 1 0 old_string 1 =
   Some (Inr 0, 1)"
proof -
  let ?h = "handle_generation_error default_generation_error_handler id (\<lambda>r :: nat. ''id'')"
  have a: "\<forall>t. snd (fst (always_old t)) \<noteq> new_string" by (simp add: always_old_def)
  have eight: "((\<lambda>t. snd (always_old t)) ^^ 8) 0 = 8"
    by (simp add: always_old_def numeral_eq_Suc)
  have hr: "?h 7 ''counter_generator'' (6 :: nat) = Inr True"
    by (simp add: handle_generation_error_def default_generation_error_handler_def
        no_tries_generation_def)
  have na: "never_again 1 ''counter_generator'' 0 = Inr False" by (simp add: never_again_def)
  note t1 = default_policy_eight_attempts [where make_id = always_old and s = 0
      and name = "''counter_generator''" and hash_code = id and string_of = "\<lambda>r. ''id''"
      and handle = ?h and counter = 7 and result = 6 and status = old_string]
  note t3 = default_policy_eight_attempts [where make_id = always_old and s = 7
      and name = "''counter_generator''" and hash_code = id and string_of = "\<lambda>r. ''id''"
      and handle = ?h and counter = 7 and result = 6 and status = old_string]
  note t2 = default_policy_eight_attempts [where make_id = always_old and s = 1
      and name = "''counter_generator''" and handle = never_again and counter = 1
      and result = 0 and status = old_string]
  have 1: "try_generate ?h ''counter_generator'' always_old 0 =
      Some (Inl (Generation_Error ''counter_generator''), 8)"
    using mp [OF t1 [THEN conjunct2, THEN conjunct1] a] by (simp only: eight)
  have 2: "try_generate_loop ?h ''counter_generator'' always_old 7 6 old_string 7 =
      try_generate_loop ?h ''counter_generator'' always_old 8 7 old_string 8"
    using mp [OF t3 [THEN conjunct2, THEN conjunct2, THEN conjunct1]] hr
    by (simp add: always_old_def)
  have 3: "try_generate_loop never_again ''counter_generator'' always_old 1 0 old_string 1 =
      Some (Inr 0, 1)"
    using mp [OF t2 [THEN conjunct2, THEN conjunct2, THEN conjunct2, THEN conjunct1]] na
    by simp
  from a 1 hr 2 na 3 show ?thesis by simp
qed



end
